theory Spec2Isabelle
  imports Complex_Main "HOL-Library.Word"
begin

unbundle bit_operations_syntax

section \<open>Data model\<close>

text \<open>
  The library \<^verbatim>\<open>fft.c\<close> works on signals given as two arrays of doubles (real and
  imaginary parts) and a length of type \<^verbatim>\<open>size_t\<close>.  The embedding takes
  \<^item> \<^verbatim>\<open>size_t\<close> as a 64-bit word and \<^verbatim>\<open>unsigned int\<close> as a 32-bit word (LP64);
  \<^item> \<^verbatim>\<open>double\<close> as an idealised real number, so that \<^verbatim>\<open>cos\<close>, \<^verbatim>\<open>sin\<close> and
    \<^verbatim>\<open>M_PI\<close> are the functions and the constant of analysis;
  \<^item> an array as a list, an in-place store \<^verbatim>\<open>a[i] = v\<close> as \<open>a[i := v]\<close>; the functions
    return the final contents of the arrays they write to, next to the status;
  \<^item> the allocator as a parameter \<open>mem\<close>: \<open>mem s\<close> tells whether a request for
    \<open>s\<close> bytes is granted (\<^verbatim>\<open>malloc\<close>, \<^verbatim>\<open>calloc\<close> and \<^verbatim>\<open>memdup\<close> return
    \<^verbatim>\<open>NULL\<close> otherwise);
  \<^item> a call that does not return normally as \<open>None\<close>.
  Counters that provably stay below the length \<open>n\<close> are natural numbers; the size
  computations that the code guards against overflow are done on words.
\<close>

type_synonym size_t = "64 word"
type_synonym uint = "32 word"
type_synonym heap = "size_t \<Rightarrow> bool"
type_synonym signal = "real list \<times> real list"
type_synonym result = "bool \<times> real list \<times> real list"

definition SIZE_MAX :: size_t where
  "SIZE_MAX = - 1"

definition sizeof_double :: size_t where
  "sizeof_double = 8"

section \<open>Bit reversal\<close>

text \<open>
  \<^verbatim>\<open>for (i = 0; i < n; i++, x >>= 1) result = (result << 1) | (x & 1);\<close>
\<close>

function reverse_bits_loop :: "nat \<Rightarrow> nat \<Rightarrow> size_t \<Rightarrow> size_t \<Rightarrow> size_t" where
  "reverse_bits_loop i n x result =
     (if i < n
      then reverse_bits_loop (Suc i) n (drop_bit 1 x) (push_bit 1 result OR (x AND 1))
      else result)"
  by pat_completeness auto
termination
  by (relation "measure (\<lambda>(i, n, x, result). n - i)") auto

definition reverse_bits :: "size_t \<Rightarrow> nat \<Rightarrow> size_t" where
  "reverse_bits x n = reverse_bits_loop 0 n x 0"

section \<open>The radix-2 engine\<close>

text \<open>
  \<^verbatim>\<open>while (temp > 1) { levels++; temp >>= 1; }\<close>
\<close>

function levels_loop :: "size_t \<Rightarrow> nat \<Rightarrow> nat" where
  "levels_loop temp levels =
     (if 1 < temp then levels_loop (drop_bit 1 temp) (Suc levels) else levels)"
  by pat_completeness auto
termination
proof (relation "measure (\<lambda>(temp, levels). unat temp)")
  show "wf (measure (\<lambda>(temp :: size_t, levels :: nat). unat temp))"
    by simp
next
  fix temp :: size_t and levels :: nat
  assume "1 < temp"
  then have "1 < unat temp"
    by (simp add: word_less_nat_alt)
  then have "unat temp div 2 < unat temp"
    by simp
  then show "((drop_bit 1 temp, Suc levels), (temp, levels))
      \<in> measure (\<lambda>(temp, levels). unat temp)"
    by (simp add: drop_bit_eq_div unat_div)
qed

definition radix2_cos_table :: "nat \<Rightarrow> real list" where
  "radix2_cos_table n = map (\<lambda>i. cos (2 * pi * real i / real n)) [0..<n div 2]"

definition radix2_sin_table :: "nat \<Rightarrow> real list" where
  "radix2_sin_table n = map (\<lambda>i. sin (2 * pi * real i / real n)) [0..<n div 2]"

text \<open>One iteration of the bit-reversed addressing loop, at index \<open>i\<close>.\<close>

definition bitrev_step :: "nat \<Rightarrow> nat \<Rightarrow> signal \<Rightarrow> signal" where
  "bitrev_step levels i s =
     (case s of (re, im) \<Rightarrow>
        let j = unat (reverse_bits (word_of_nat i) levels) in
        if i < j then
          (let temp = re ! i; re1 = re[i := re ! j]; re2 = re1[j := temp];
               temp = im ! i; im1 = im[i := im ! j]; im2 = im1[j := temp]
           in (re2, im2))
        else (re, im))"

definition bitrev_pass :: "nat \<Rightarrow> nat \<Rightarrow> signal \<Rightarrow> signal" where
  "bitrev_pass levels n s = fold (bitrev_step levels) [0..<n] s"

text \<open>The body of the innermost loop: one butterfly on the samples \<open>j\<close> and \<open>j + halfsize\<close>.\<close>

definition butterfly :: "real list \<Rightarrow> real list \<Rightarrow> nat \<Rightarrow> nat \<Rightarrow> nat \<Rightarrow> signal \<Rightarrow> signal" where
  "butterfly cos_table sin_table halfsize j k s =
     (case s of (re, im) \<Rightarrow>
        let tpre = re ! (j + halfsize) * cos_table ! k + im ! (j + halfsize) * sin_table ! k;
            tpim = - re ! (j + halfsize) * sin_table ! k + im ! (j + halfsize) * cos_table ! k;
            re1 = re[j + halfsize := re ! j - tpre];
            im1 = im[j + halfsize := im ! j - tpim];
            re2 = re1[j := re1 ! j + tpre];
            im2 = im1[j := im1 ! j + tpim]
        in (re2, im2))"

text \<open>
  \<^verbatim>\<open>for (j = i, k = 0; j < i + halfsize; j++, k += tablestep)\<close>, with \<open>stop = i + halfsize\<close>.
\<close>

function butterfly_loop ::
  "real list \<Rightarrow> real list \<Rightarrow> nat \<Rightarrow> nat \<Rightarrow> nat \<Rightarrow> nat \<Rightarrow> nat \<Rightarrow> signal \<Rightarrow> signal" where
  "butterfly_loop cos_table sin_table halfsize tablestep stop j k s =
     (if j < stop
      then butterfly_loop cos_table sin_table halfsize tablestep stop (Suc j) (k + tablestep)
             (butterfly cos_table sin_table halfsize j k s)
      else s)"
  by pat_completeness auto
termination
  by (relation "measure (\<lambda>(ct, st, h, ts, stop, j, k, s). stop - j)") auto

text \<open>
  \<^verbatim>\<open>for (i = 0; i < n; i += size)\<close>, the variable \<^verbatim>\<open>size\<close> of the source being
  \<open>sz\<close> here.  The code enters this loop with \<open>sz \<ge> 2\<close> only; the test \<open>sz = 0\<close>
  makes the definition total and is never taken.
\<close>

function block_loop ::
  "real list \<Rightarrow> real list \<Rightarrow> nat \<Rightarrow> nat \<Rightarrow> nat \<Rightarrow> signal \<Rightarrow> signal" where
  "block_loop cos_table sin_table n sz i s =
     (if sz = 0 then s
      else if i < n
      then block_loop cos_table sin_table n sz (i + sz)
             (butterfly_loop cos_table sin_table (sz div 2) (n div sz)
                (i + sz div 2) i 0 s)
      else s)"
  by pat_completeness auto
termination
  by (relation "measure (\<lambda>(ct, st, n, sz, i, s). n - i)") auto

text \<open>
  \<^verbatim>\<open>for (size = 2; size <= n; size *= 2) { ...; if (size == n) break; }\<close>.
  The loop starts at \<open>sz = 2\<close>; the test \<open>sz = 0\<close> makes the definition total and
  is never taken.  Since \<open>n\<close> has passed the power-of-two test, \<open>sz\<close> reaches \<open>n\<close>
  exactly and the doubling never wraps.
\<close>

function stage_loop ::
  "real list \<Rightarrow> real list \<Rightarrow> nat \<Rightarrow> nat \<Rightarrow> signal \<Rightarrow> signal" where
  "stage_loop cos_table sin_table n sz s =
     (if sz = 0 then s
      else if sz \<le> n
      then (let s' = block_loop cos_table sin_table n sz 0 s
            in if sz = n then s' else stage_loop cos_table sin_table n (sz * 2) s')
      else s)"
  by pat_completeness auto
termination
  by (relation "measure (\<lambda>(ct, st, n, sz, s). n - sz)") auto

text \<open>
  \<^verbatim>\<open>1u << levels\<close> is a shift of an \<^verbatim>\<open>unsigned int\<close>; the comparison with \<open>n\<close> converts
  it to \<^verbatim>\<open>size_t\<close>.  For \<open>levels \<ge> 32\<close> C leaves the shift undefined; \<open>push_bit\<close> gives
  \<open>0\<close> there.
\<close>

definition transform_radix2 :: "heap \<Rightarrow> real list \<Rightarrow> real list \<Rightarrow> size_t \<Rightarrow> result" where
  "transform_radix2 mem re im n =
     (let levels = levels_loop n 0 in
      if (ucast (push_bit levels (1 :: uint)) :: size_t) \<noteq> n then (False, re, im)
      else if SIZE_MAX div sizeof_double < n div 2 then (False, re, im)
      else
        let sz = (n div 2) * sizeof_double in
        if \<not> mem sz then (False, re, im)
        else
          let cos_table = radix2_cos_table (unat n);
              sin_table = radix2_sin_table (unat n);
              s1 = bitrev_pass levels (unat n) (re, im);
              s2 = stage_loop cos_table sin_table (unat n) 2 s1
          in (True, fst s2, snd s2))"

section \<open>The Bluestein adapter, the convolution engine and the dispatcher\<close>

text \<open>
  \<^verbatim>\<open>for (m = 1; m < target; m *= 2) { if (SIZE_MAX / 2 < m) return 0; }\<close>.
  The outer \<open>None\<close> stands for a loop that does not end, \<open>Some None\<close> for the
  \<^verbatim>\<open>return 0\<close> inside the loop, \<open>Some (Some m)\<close> for the value of \<open>m\<close> at the exit.
\<close>

partial_function (option) m_loop :: "size_t \<Rightarrow> size_t \<Rightarrow> size_t option option" where
  "m_loop m target =
     (if m < target
      then (if SIZE_MAX div 2 < m then Some None else m_loop (m * 2) target)
      else Some (Some m))"

text \<open>
  The chirp tables.  The index \<^verbatim>\<open>(unsigned long long)i * i % ((unsigned long long)n * 2)\<close>
  is computed in 64 bits, with the wrap-around of the product written out.
\<close>

definition chirp_index :: "nat \<Rightarrow> nat \<Rightarrow> nat" where
  "chirp_index n i = ((i * i) mod 2 ^ 64) mod ((n * 2) mod 2 ^ 64)"

definition chirp_cos_table :: "nat \<Rightarrow> real list" where
  "chirp_cos_table n = map (\<lambda>i. cos (pi * real (chirp_index n i) / real n)) [0..<n]"

definition chirp_sin_table :: "nat \<Rightarrow> real list" where
  "chirp_sin_table n = map (\<lambda>i. sin (pi * real (chirp_index n i) / real n)) [0..<n]"

text \<open>
  Multiplication of sample \<open>i\<close> of \<open>(re, im)\<close> by the conjugate of the chirp, stored into
  \<open>(areal, aimag)\<close>: the body of the preprocessing loop, and of the postprocessing loop.
\<close>

definition chirp_step ::
  "real list \<Rightarrow> real list \<Rightarrow> real list \<Rightarrow> real list \<Rightarrow> nat \<Rightarrow> signal \<Rightarrow> signal" where
  "chirp_step cos_table sin_table re im i a =
     (case a of (areal, aimag) \<Rightarrow>
        (areal[i := re ! i * cos_table ! i + im ! i * sin_table ! i],
         aimag[i := - re ! i * sin_table ! i + im ! i * cos_table ! i]))"

text \<open>The sequence \<open>a\<close>: \<^verbatim>\<open>calloc\<close> gives zeros, the loop fills the first \<open>n\<close> entries.\<close>

definition bluestein_a ::
  "real list \<Rightarrow> real list \<Rightarrow> real list \<Rightarrow> real list \<Rightarrow> nat \<Rightarrow> nat \<Rightarrow> signal" where
  "bluestein_a cos_table sin_table re im n m =
     fold (chirp_step cos_table sin_table re im) [0..<n] (replicate m 0, replicate m 0)"

text \<open>
  The sequence \<open>b\<close>.  \<^verbatim>\<open>breal[i] = breal[m - i] = cos_table[i]\<close> stores at \<open>m - i\<close> first.
\<close>

definition b_step :: "real list \<Rightarrow> real list \<Rightarrow> nat \<Rightarrow> nat \<Rightarrow> signal \<Rightarrow> signal" where
  "b_step cos_table sin_table m i b =
     (case b of (breal, bimag) \<Rightarrow>
        (breal[m - i := cos_table ! i, i := cos_table ! i],
         bimag[m - i := sin_table ! i, i := sin_table ! i]))"

definition bluestein_b :: "real list \<Rightarrow> real list \<Rightarrow> nat \<Rightarrow> nat \<Rightarrow> signal" where
  "bluestein_b cos_table sin_table n m =
     fold (b_step cos_table sin_table m) [1..<n]
       ((replicate m 0)[0 := cos_table ! 0], (replicate m 0)[0 := sin_table ! 0])"

text \<open>The pointwise product and the scaling of the convolution engine.\<close>

definition multiply_step :: "real list \<Rightarrow> real list \<Rightarrow> nat \<Rightarrow> signal \<Rightarrow> signal" where
  "multiply_step yr yi i x =
     (case x of (xr, xi) \<Rightarrow>
        let temp = xr ! i * yr ! i - xi ! i * yi ! i;
            xi1 = xi[i := xi ! i * yr ! i + xr ! i * yi ! i];
            xr1 = xr[i := temp]
        in (xr1, xi1))"

definition scale_step :: "real list \<Rightarrow> real list \<Rightarrow> nat \<Rightarrow> nat \<Rightarrow> signal \<Rightarrow> signal" where
  "scale_step xr xi n i out =
     (case out of (outreal, outimag) \<Rightarrow>
        (outreal[i := xr ! i / real n], outimag[i := xi ! i / real n]))"

text \<open>
  The four functions call each other: \<^verbatim>\<open>transform\<close> enters \<^verbatim>\<open>transform_bluestein\<close>,
  which calls \<^verbatim>\<open>convolve_complex\<close>, which calls \<^verbatim>\<open>transform\<close> and
  \<^verbatim>\<open>inverse_transform\<close>.  The bodies of the three callers of \<^verbatim>\<open>transform\<close> are
  written first, with the function \<open>T\<close> that a call of \<^verbatim>\<open>transform\<close> runs as a
  parameter; \<open>transform\<close> then ties the knot by recursion on a fuel argument that bounds
  the nesting of \<^verbatim>\<open>transform_bluestein\<close>: with fuel \<open>0\<close> it does not return where the
  code would enter \<^verbatim>\<open>transform_bluestein\<close>, and with fuel \<open>Suc fuel\<close> it enters it with
  \<open>fuel\<close>.  The buffers \<^verbatim>\<open>creal\<close> and \<^verbatim>\<open>cimag\<close> come from \<^verbatim>\<open>malloc\<close>; every entry is
  written before it is read, and they start as zeros here.
\<close>

type_synonym transformer = "real list \<Rightarrow> real list \<Rightarrow> size_t \<Rightarrow> result option"

definition inverse_transform_with :: "transformer \<Rightarrow> real list \<Rightarrow> real list \<Rightarrow> size_t \<Rightarrow> result option" where
  "inverse_transform_with T re im n =
     (case T im re n of
        None \<Rightarrow> None
      | Some (status, im', re') \<Rightarrow> Some (status, re', im'))"

definition convolve_complex_with ::
  "transformer \<Rightarrow> heap \<Rightarrow> real list \<Rightarrow> real list \<Rightarrow> real list \<Rightarrow> real list
     \<Rightarrow> real list \<Rightarrow> real list \<Rightarrow> size_t \<Rightarrow> result option" where
  "convolve_complex_with T mem xreal ximag yreal yimag outreal outimag n =
     (if SIZE_MAX div sizeof_double < n then Some (False, outreal, outimag)
      else if \<not> mem (n * sizeof_double) then Some (False, outreal, outimag)
      else
        (case T (take (unat n) xreal) (take (unat n) ximag) n of
           None \<Rightarrow> None
         | Some (status1, xr, xi) \<Rightarrow>
             if \<not> status1 then Some (False, outreal, outimag)
             else
               (case T (take (unat n) yreal) (take (unat n) yimag) n of
                  None \<Rightarrow> None
                | Some (status2, yr, yi) \<Rightarrow>
                    if \<not> status2 then Some (False, outreal, outimag)
                    else
                      (let x = fold (multiply_step yr yi) [0..<unat n] (xr, xi)
                       in case inverse_transform_with T (fst x) (snd x) n of
                            None \<Rightarrow> None
                          | Some (status3, xr', xi') \<Rightarrow>
                              if \<not> status3 then Some (False, outreal, outimag)
                              else
                                (let out = fold (scale_step xr' xi' (unat n)) [0..<unat n]
                                             (outreal, outimag)
                                 in Some (True, fst out, snd out))))))"

definition transform_bluestein_with ::
  "transformer \<Rightarrow> heap \<Rightarrow> real list \<Rightarrow> real list \<Rightarrow> size_t \<Rightarrow> result option" where
  "transform_bluestein_with T mem re im n =
     (if (SIZE_MAX - 1) div 2 < n then Some (False, re, im)
      else
        (case m_loop 1 (n * 2 + 1) of
           None \<Rightarrow> None
         | Some None \<Rightarrow> Some (False, re, im)
         | Some (Some m) \<Rightarrow>
             if SIZE_MAX div sizeof_double < n \<or> SIZE_MAX div sizeof_double < m
             then Some (False, re, im)
             else if \<not> mem (n * sizeof_double) \<or> \<not> mem (m * sizeof_double)
             then Some (False, re, im)
             else
               (let cos_table = chirp_cos_table (unat n);
                    sin_table = chirp_sin_table (unat n);
                    a = bluestein_a cos_table sin_table re im (unat n) (unat m);
                    b = bluestein_b cos_table sin_table (unat n) (unat m)
                in case convolve_complex_with T mem (fst a) (snd a) (fst b) (snd b)
                          (replicate (unat m) 0) (replicate (unat m) 0) m of
                     None \<Rightarrow> None
                   | Some (status, creal, cimag) \<Rightarrow>
                       if \<not> status then Some (False, re, im)
                       else
                         (let r = fold (chirp_step cos_table sin_table creal cimag)
                                    [0..<unat n] (re, im)
                          in Some (True, fst r, snd r)))))"

primrec transform :: "nat \<Rightarrow> heap \<Rightarrow> real list \<Rightarrow> real list \<Rightarrow> size_t \<Rightarrow> result option" where
  "transform 0 mem re im n =
     (if n = 0 then Some (True, re, im)
      else if n AND (n - 1) = 0 then Some (transform_radix2 mem re im n)
      else None)"
| "transform (Suc fuel) mem re im n =
     (if n = 0 then Some (True, re, im)
      else if n AND (n - 1) = 0 then Some (transform_radix2 mem re im n)
      else transform_bluestein_with (transform fuel mem) mem re im n)"

definition inverse_transform :: "nat \<Rightarrow> heap \<Rightarrow> real list \<Rightarrow> real list \<Rightarrow> size_t \<Rightarrow> result option" where
  "inverse_transform fuel mem re im n = inverse_transform_with (transform fuel mem) re im n"

definition transform_bluestein :: "nat \<Rightarrow> heap \<Rightarrow> real list \<Rightarrow> real list \<Rightarrow> size_t \<Rightarrow> result option" where
  "transform_bluestein fuel mem re im n = transform_bluestein_with (transform fuel mem) mem re im n"



section \<open>The dual-real packing adapter\<close>

text \<open>
  The working buffers \<^verbatim>\<open>X_real\<close> and \<^verbatim>\<open>X_imag\<close> come from \<^verbatim>\<open>malloc\<close> and are not
  checked: where the request is refused the first store goes through a null pointer, and the
  call does not return.  The body of the separation loop, at bin \<open>k\<close>:
\<close>

record spectra =
  X1_real :: "real list"
  X1_imag :: "real list"
  X2_real :: "real list"
  X2_imag :: "real list"

definition split_step :: "real list \<Rightarrow> real list \<Rightarrow> nat \<Rightarrow> nat \<Rightarrow> spectra \<Rightarrow> spectra" where
  "split_step X_real X_imag n k X =
     (let X = X\<lparr>X1_real := (X1_real X)[k := 0.5 * (X_real ! k + X_real ! (n - k))]\<rparr>;
          X = X\<lparr>X2_real := (X2_real X)[k := 0.5 * (X_imag ! k + X_imag ! (n - k))]\<rparr>;
          X = X\<lparr>X1_real := (X1_real X)[n - k := X1_real X ! k]\<rparr>;
          X = X\<lparr>X2_real := (X2_real X)[n - k := X2_real X ! k]\<rparr>;
          X = X\<lparr>X1_imag := (X1_imag X)[k := 0.5 * (X_imag ! k - X_imag ! (n - k))]\<rparr>;
          X = X\<lparr>X2_imag := (X2_imag X)[k := - 0.5 * (X_real ! k - X_real ! (n - k))]\<rparr>;
          X = X\<lparr>X1_imag := (X1_imag X)[n - k := - (X1_imag X ! k)]\<rparr>;
          X = X\<lparr>X2_imag := (X2_imag X)[n - k := - (X2_imag X ! k)]\<rparr>
      in X)"

definition fft_2signals ::
  "nat \<Rightarrow> heap \<Rightarrow> real list \<Rightarrow> real list \<Rightarrow> spectra \<Rightarrow> size_t \<Rightarrow> (bool \<times> spectra) option" where
  "fft_2signals fuel mem signal_1 signal_2 X n =
     (if \<not> mem (n * sizeof_double) then None
      else
        (let X_real = take (unat n) signal_1;
             X_imag = take (unat n) signal_2
         in case transform fuel mem X_real X_imag n of
              None \<Rightarrow> None
            | Some (status, X_real, X_imag) \<Rightarrow>
                if \<not> status then Some (False, X)
                else
                  (let X = X\<lparr>X1_real := (X1_real X)[0 := X_real ! 0]\<rparr>;
                       X = X\<lparr>X1_imag := (X1_imag X)[0 := 0]\<rparr>;
                       X = X\<lparr>X2_real := (X2_real X)[0 := X_imag ! 0]\<rparr>;
                       X = X\<lparr>X2_imag := (X2_imag X)[0 := 0]\<rparr>;
                       X = X\<lparr>X1_real := (X1_real X)[unat n div 2 := X_imag ! (unat n div 2)]\<rparr>;
                       X = X\<lparr>X2_real := (X2_real X)[unat n div 2 := X_imag ! (unat n div 2)]\<rparr>;
                       X = X\<lparr>X1_imag := (X1_imag X)[unat n div 2 := 0]\<rparr>;
                       X = X\<lparr>X2_imag := (X2_imag X)[unat n div 2 := 0]\<rparr>;
                       X = fold (split_step X_real X_imag (unat n)) [1..<unat n div 2] X
                   in Some (True, X))))"

section \<open>Notions used in the statements and proofs\<close>

text \<open>The bit reversal on indices, as the addressing loop computes it.\<close>

definition brev :: "nat \<Rightarrow> nat \<Rightarrow> nat" where
  "brev levels i = unat (reverse_bits (word_of_nat i) levels)"

text \<open>
  The contents of an array during the addressing loop, when the indices below \<open>k\<close> have
  been visited.
\<close>

definition partly_reversed :: "nat \<Rightarrow> 'a list \<Rightarrow> nat \<Rightarrow> nat \<Rightarrow> 'a" where
  "partly_reversed L xs k i = (if min i (brev L i) < k then xs ! brev L i else xs ! i)"

text \<open>
  The contents of one array of the sequence \<open>b\<close> when the filling loop has reached
  index \<open>k\<close>.
\<close>

definition b_partial :: "real list \<Rightarrow> nat \<Rightarrow> nat \<Rightarrow> nat \<Rightarrow> real" where
  "b_partial tbl m k j = (if j < k then tbl ! j else if m - k < j then tbl ! (m - j) else 0)"

text \<open>
  The discrete Fourier transform, as the reference the engines are compared with:
  \<open>twiddle N e\<close> is \<open>exp (- 2 \<pi> \<i> e / N)\<close>, and \<open>dft N z k\<close> the \<open>k\<close>-th coefficient of the
  transform of the first \<open>N\<close> samples of \<open>z\<close>.
\<close>

definition twiddle :: "nat \<Rightarrow> int \<Rightarrow> complex" where
  "twiddle N e = cis (- (2 * pi * of_int e / of_nat N))"










section \<open>Powers of two and the size arithmetic\<close>

declare reverse_bits_loop.simps [simp del]
declare levels_loop.simps [simp del]
declare butterfly_loop.simps [simp del]
declare block_loop.simps [simp del]
declare stage_loop.simps [simp del]

lemma nat_and_pred_zero_iff:
  fixes n :: nat
  assumes "0 < n"
  shows "n AND (n - 1) = 0 \<longleftrightarrow> (\<exists>k. n = 2 ^ k)"
  using assms
proof (induction n rule: less_induct)
  case (less n)
  show ?case
  proof (cases "even n")
    case True
    then obtain a where a: "n = 2 * a" by (auto elim: evenE)
    with less.prems have a0: "0 < a" by simp
    have pred: "n - 1 = 2 * (a - 1) + 1" using a a0 by simp
    have "n AND (n - 1) = 2 * (a AND (a - 1))"
      unfolding pred unfolding a
      by (subst and_nat_rec) simp
    moreover have "a AND (a - 1) = 0 \<longleftrightarrow> (\<exists>k. a = 2 ^ k)"
      using less.IH [of a] a a0 by simp
    moreover have "(\<exists>k. a = 2 ^ k) \<longleftrightarrow> (\<exists>k. n = 2 ^ k)"
    proof
      assume "\<exists>k. a = 2 ^ k"
      then obtain k where "a = 2 ^ k" ..
      then have "n = 2 ^ Suc k" using a by simp
      then show "\<exists>k. n = 2 ^ k" ..
    next
      assume "\<exists>k. n = 2 ^ k"
      then obtain k where k: "n = 2 ^ k" ..
      with True a0 a have "k \<noteq> 0" by (cases k) auto
      then obtain k' where "k = Suc k'" by (cases k) auto
      with k a have "a = 2 ^ k'" by simp
      then show "\<exists>k. a = 2 ^ k" ..
    qed
    ultimately show ?thesis by simp
  next
    case False
    then obtain a where a: "n = 2 * a + 1" by (auto elim: oddE)
    have "n AND (n - 1) = 2 * a"
      unfolding a by (subst and_nat_rec) simp
    moreover have "(\<exists>k. n = 2 ^ k) \<longleftrightarrow> a = 0"
    proof
      assume "\<exists>k. n = 2 ^ k"
      then obtain k where k: "n = 2 ^ k" ..
      with False have "k = 0" by (cases k) auto
      with k a show "a = 0" by simp
    next
      assume "a = 0"
      then have "n = 2 ^ 0" using a by simp
      then show "\<exists>k. n = 2 ^ k" ..
    qed
    ultimately show ?thesis by auto
  qed
qed

lemma unat_2p: "k < 64 \<Longrightarrow> unat (2 ^ k :: size_t) = 2 ^ k"
proof -
  assume k: "k < 64"
  have "(2 ^ k :: size_t) = word_of_nat (2 ^ k)" by simp
  then have "unat (2 ^ k :: size_t) = 2 ^ k mod 2 ^ LENGTH(64)"
    by (simp only: unat_of_nat)
  also have "\<dots> = 2 ^ k"
  proof -
    have "(2::nat) ^ k < 2 ^ LENGTH(64)"
      using k by (intro power_strict_increasing) simp_all
    then show ?thesis by (rule mod_less)
  qed
  finally show ?thesis .
qed

lemma word_and_pred_zero_iff:
  fixes n :: size_t
  assumes "n \<noteq> 0"
  shows "n AND (n - 1) = 0 \<longleftrightarrow> (\<exists>k<64. n = 2 ^ k)"
proof -
  have pos: "0 < unat n" using assms by (simp add: unat_gt_0)
  have "unat (n - 1) = unat n - 1"
    using assms by (simp add: unat_minus_one)
  then have "unat (n AND (n - 1)) = unat n AND (unat n - 1)"
    by (simp add: unsigned_and_eq)
  then have "n AND (n - 1) = 0 \<longleftrightarrow> unat n AND (unat n - 1) = 0"
    by (metis unat_eq_zero)
  also have "\<dots> \<longleftrightarrow> (\<exists>k. unat n = 2 ^ k)"
    by (rule nat_and_pred_zero_iff [OF pos])
  also have "\<dots> \<longleftrightarrow> (\<exists>k<64. n = 2 ^ k)"
  proof
    assume "\<exists>k. unat n = 2 ^ k"
    then obtain k where k: "unat n = 2 ^ k" ..
    have "unat n < 2 ^ LENGTH(64)" by (rule unsigned_less)
    with k have "(2::nat) ^ k < 2 ^ 64" by simp
    then have "k < 64" by (rule power_less_imp_less_exp [rotated]) simp
    moreover from \<open>k < 64\<close> have "n = 2 ^ k"
      using k by (simp add: word_unat_eq_iff unat_2p)
    ultimately show "\<exists>k<64. n = 2 ^ k" by blast
  next
    assume "\<exists>k<64. n = 2 ^ k"
    then obtain k where "k < 64" "n = 2 ^ k" by blast
    then have "unat n = 2 ^ k" by (simp add: unat_2p)
    then show "\<exists>k. unat n = 2 ^ k" ..
  qed
  finally show ?thesis .
qed

lemma pow2_word_mono: "i \<le> j \<Longrightarrow> j < 64 \<Longrightarrow> (2 ^ i :: size_t) \<le> 2 ^ j"
  by (simp add: word_le_nat_alt unat_2p)

lemma pow2_word_strict_mono: "i < j \<Longrightarrow> j < 64 \<Longrightarrow> (2 ^ i :: size_t) < 2 ^ j"
  by (simp add: word_less_nat_alt unat_2p)

lemma size_max_half: "SIZE_MAX div 2 = (2 ^ 63 - 1 :: size_t)"
  by (simp add: SIZE_MAX_def)

lemma size_max_half_less_iff: "k < 64 \<Longrightarrow> SIZE_MAX div 2 < (2 ^ k :: size_t) \<longleftrightarrow> k = 63"
proof -
  assume k: "k < 64"
  have u: "unat (SIZE_MAX div 2) = 2 ^ 63 - 1"
    by (simp add: SIZE_MAX_def)
  show ?thesis
  proof (cases "k = 63")
    case True
    then show ?thesis by (simp add: word_less_nat_alt u)
  next
    case False
    with k have "k < 63" by simp
    then have "(2::nat) ^ k < 2 ^ 63"
      by (intro power_strict_increasing) simp_all
    then show ?thesis using False k
      by (simp add: word_less_nat_alt u unat_2p)
  qed
qed

lemma m_loop_from:
  assumes "k < 64" and "\<forall>j<k. (2 ^ j :: size_t) < t"
  shows "(m_loop (2 ^ k) t = Some None \<and> (\<forall>j<64. (2 ^ j :: size_t) < t))
       \<or> (\<exists>i. k \<le> i \<and> i < 64 \<and> m_loop (2 ^ k) t = Some (Some (2 ^ i)) \<and> t \<le> 2 ^ i
              \<and> (\<forall>j<i. (2 ^ j :: size_t) < t))"
  using assms
proof (induction "63 - k" arbitrary: k)
  case 0
  then have k: "k = 63" by simp
  show ?case
  proof (cases "(2 ^ k :: size_t) < t")
    case True
    have "\<forall>j<64. (2 ^ j :: size_t) < t"
    proof (intro allI impI)
      fix j :: nat assume "j < 64"
      then have "j < k \<or> j = k" using k by auto
      then show "(2 ^ j :: size_t) < t" using True "0.prems"(2) by auto
    qed
    moreover have "SIZE_MAX div 2 < (2 ^ k :: size_t)"
      using size_max_half_less_iff [of k] k by simp
    then have "m_loop (2 ^ k) t = Some None"
      using True by (subst m_loop.simps) (simp only: if_True)
    ultimately show ?thesis by simp
  next
    case False
    then have "m_loop (2 ^ k) t = Some (Some (2 ^ k))"
      by (subst m_loop.simps) simp
    with False "0.prems" show ?thesis
      by (intro disjI2 exI [of _ k]) (simp add: not_less)
  qed
next
  case (Suc d)
  then have k: "k < 63" by simp
  show ?case
  proof (cases "(2 ^ k :: size_t) < t")
    case True
    have "\<not> SIZE_MAX div 2 < (2 ^ k :: size_t)"
      using size_max_half_less_iff [of k] k by simp
    then have step: "m_loop (2 ^ k) t = m_loop (2 ^ Suc k) t"
      using True by (subst m_loop.simps) (simp only: if_True if_False power_Suc mult.commute)
    have "\<forall>j<Suc k. (2 ^ j :: size_t) < t"
      using True Suc.prems(2) by (auto simp: less_Suc_eq)
    moreover have "d = 63 - Suc k" "Suc k < 64" using Suc.hyps(2) k by simp_all
    ultimately have "(m_loop (2 ^ Suc k) t = Some None \<and> (\<forall>j<64. (2 ^ j :: size_t) < t))
       \<or> (\<exists>i. Suc k \<le> i \<and> i < 64 \<and> m_loop (2 ^ Suc k) t = Some (Some (2 ^ i)) \<and> t \<le> 2 ^ i
              \<and> (\<forall>j<i. (2 ^ j :: size_t) < t))"
      using Suc.hyps(1) [of "Suc k"] by blast
    then show ?thesis
      unfolding step by (auto intro: Suc_leD)
  next
    case False
    then have "m_loop (2 ^ k) t = Some (Some (2 ^ k))"
      by (subst m_loop.simps) simp
    with False Suc.prems show ?thesis
      by (intro disjI2 exI [of _ k]) (simp add: not_less)
  qed
qed

lemma m_loop_1:
  "(m_loop 1 t = Some None \<and> (\<forall>j<64. (2 ^ j :: size_t) < t))
   \<or> (\<exists>i<64. m_loop 1 t = Some (Some (2 ^ i)) \<and> t \<le> 2 ^ i \<and> (\<forall>j<i. (2 ^ j :: size_t) < t))"
  using m_loop_from [of 0 t] by auto

section \<open>The recursion between the dispatcher, Bluestein and the convolution\<close>

lemma pow2_neq0: "k < 64 \<Longrightarrow> (2 ^ k :: size_t) \<noteq> 0"
  by (simp add: word_unat_eq_iff unat_2p)

lemma transform_pow2:
  assumes "k < 64"
  shows "transform fuel mem re im (2 ^ k) = Some (transform_radix2 mem re im (2 ^ k))"
proof -
  have "(2 ^ k :: size_t) AND (2 ^ k - 1) = 0"
    using word_and_pred_zero_iff [OF pow2_neq0 [OF assms]] assms by blast
  then show ?thesis
    using pow2_neq0 [OF assms] by (cases fuel) simp_all
qed

lemma inverse_transform_with_Some:
  "T im re n \<noteq> None \<Longrightarrow> inverse_transform_with T re im n \<noteq> None"
  by (auto simp: inverse_transform_with_def split: option.splits)

lemma convolve_complex_with_cong:
  assumes "\<And>a b. T a b n = T' a b n"
  shows "convolve_complex_with T mem xr xi yr yi outr outi n
       = convolve_complex_with T' mem xr xi yr yi outr outi n"
  by (simp add: convolve_complex_with_def inverse_transform_with_def assms
      cong: option.case_cong prod.case_cong if_cong)

lemma convolve_complex_with_returns:
  assumes "\<And>a b. T a b n \<noteq> None"
  shows "convolve_complex_with T mem xr xi yr yi outr outi n \<noteq> None"
  using assms
  by (auto simp: convolve_complex_with_def inverse_transform_with_def Let_def
      simp del: not_None_eq split: option.splits prod.splits)

lemma transform_bluestein_with_cong:
  assumes "\<And>a b k. k < 64 \<Longrightarrow> T a b (2 ^ k) = T' a b (2 ^ k)"
  shows "transform_bluestein_with T mem re im n = transform_bluestein_with T' mem re im n"
proof -
  from m_loop_1 [of "n * 2 + 1"] show ?thesis
  proof (elim disjE conjE exE)
    assume "m_loop 1 (n * 2 + 1) = Some None"
    then show ?thesis by (simp add: transform_bluestein_with_def)
  next
    fix i assume i: "i < 64" and m: "m_loop 1 (n * 2 + 1) = Some (Some (2 ^ i))"
    have "\<And>xr xi yr yi outr outi. convolve_complex_with T mem xr xi yr yi outr outi (2 ^ i)
       = convolve_complex_with T' mem xr xi yr yi outr outi (2 ^ i)"
      by (rule convolve_complex_with_cong) (rule assms [OF i])
    then show ?thesis
      by (simp add: transform_bluestein_with_def m)
  qed
qed

lemma transform_bluestein_with_returns:
  assumes "\<And>a b k. k < 64 \<Longrightarrow> T a b (2 ^ k) \<noteq> None"
  shows "transform_bluestein_with T mem re im n \<noteq> None"
proof -
  from m_loop_1 [of "n * 2 + 1"] show ?thesis
  proof (elim disjE conjE exE)
    assume "m_loop 1 (n * 2 + 1) = Some None"
    then show ?thesis by (auto simp: transform_bluestein_with_def)
  next
    fix i assume i: "i < 64" and m: "m_loop 1 (n * 2 + 1) = Some (Some (2 ^ i))"
    have "\<And>xr xi yr yi outr outi.
        convolve_complex_with T mem xr xi yr yi outr outi (2 ^ i) \<noteq> None"
      by (rule convolve_complex_with_returns) (rule assms [OF i])
    then show ?thesis
      by (auto simp: transform_bluestein_with_def m Let_def
          simp del: not_None_eq split: option.splits prod.splits)
  qed
qed

lemma transform_bluestein_fuel:
  "transform_bluestein fuel mem re im n = transform_bluestein 0 mem re im n"
  unfolding transform_bluestein_def
  by (rule transform_bluestein_with_cong) (simp only: transform_pow2)

lemma transform_bluestein_returns: "transform_bluestein fuel mem re im n \<noteq> None"
  unfolding transform_bluestein_def
  by (rule transform_bluestein_with_returns) (simp only: transform_pow2 option.distinct not_False_eq_True)

lemma transform_Suc:
  "transform (Suc fuel) mem re im n =
     (if n = 0 then Some (True, re, im)
      else if n AND (n - 1) = 0 then Some (transform_radix2 mem re im n)
      else transform_bluestein fuel mem re im n)"
  by (simp add: transform_bluestein_def)

lemma transform_fuel: "transform (Suc fuel) mem re im n = transform (Suc 0) mem re im n"
  unfolding transform_Suc by (simp add: transform_bluestein_fuel [of fuel])

lemma transform_returns: "transform (Suc fuel) mem re im n \<noteq> None"
  unfolding transform_Suc by (simp add: transform_bluestein_returns del: not_None_eq)

section \<open>The power-of-two test of the radix-2 engine\<close>

lemma pow2_word_iff: "(\<exists>k. unat (n :: size_t) = 2 ^ k) \<longleftrightarrow> (\<exists>k<64. n = 2 ^ k)"
proof
  assume "\<exists>k. unat n = 2 ^ k"
  then obtain k where k: "unat n = 2 ^ k" ..
  have "unat n < 2 ^ LENGTH(64)" by (rule unsigned_less)
  with k have "(2::nat) ^ k < 2 ^ 64" by simp
  then have "k < 64" by (rule power_less_imp_less_exp [rotated]) simp
  moreover from \<open>k < 64\<close> have "n = 2 ^ k"
    using k by (simp add: word_unat_eq_iff unat_2p)
  ultimately show "\<exists>k<64. n = 2 ^ k" by blast
next
  assume "\<exists>k<64. n = 2 ^ k"
  then obtain k where "k < 64" "n = 2 ^ k" by blast
  then have "unat n = 2 ^ k" by (simp add: unat_2p)
  then show "\<exists>k. unat n = 2 ^ k" ..
qed

lemma pow2_le_D: "(2::nat) ^ a \<le> 2 ^ b \<Longrightarrow> a \<le> b"
  by simp

lemma pow2_less_D: "(2::nat) ^ a < 2 ^ b \<Longrightarrow> a < b"
  by simp

lemma unat_pow2_word: "k < LENGTH('a) \<Longrightarrow> unat (2 ^ k :: 'a::len word) = 2 ^ k"
proof -
  assume k: "k < LENGTH('a)"
  have "(2 ^ k :: 'a word) = word_of_nat (2 ^ k)" by simp
  then have "unat (2 ^ k :: 'a word) = 2 ^ k mod 2 ^ LENGTH('a)"
    by (simp only: unat_of_nat)
  also have "\<dots> = 2 ^ k"
  proof -
    have "(2::nat) ^ k < 2 ^ LENGTH('a)"
      using k by (intro power_strict_increasing) simp_all
    then show ?thesis by (rule mod_less)
  qed
  finally show ?thesis .
qed

lemma levels_loop_bounds:
  "n \<noteq> 0 \<Longrightarrow> l \<le> levels_loop n l \<and> 2 ^ (levels_loop n l - l) \<le> unat n
      \<and> unat n < 2 ^ Suc (levels_loop n l - l)"
proof (induction n l rule: levels_loop.induct)
  case (1 temp levels)
  show ?case
  proof (cases "1 < temp")
    case True
    then have u: "1 < unat temp" by (simp add: word_less_nat_alt)
    have d: "unat (drop_bit 1 temp) = unat temp div 2"
      by (simp add: drop_bit_eq_div unat_div)
    with u have "drop_bit 1 temp \<noteq> 0"
      by (auto simp: word_unat_eq_iff)
    from "1.IH" [OF True this]
    have ih: "Suc levels \<le> levels_loop (drop_bit 1 temp) (Suc levels)"
      "2 ^ (levels_loop (drop_bit 1 temp) (Suc levels) - Suc levels) \<le> unat temp div 2"
      "unat temp div 2 < 2 ^ Suc (levels_loop (drop_bit 1 temp) (Suc levels) - Suc levels)"
      unfolding d by blast+
    have eq: "levels_loop temp levels = levels_loop (drop_bit 1 temp) (Suc levels)"
      using True by (subst levels_loop.simps) simp
    define r where "r = levels_loop (drop_bit 1 temp) (Suc levels) - Suc levels"
    have r: "levels_loop temp levels - levels = Suc r"
      using ih(1) by (simp add: eq r_def)
    have "2 ^ Suc r \<le> unat temp" "unat temp < 2 ^ Suc (Suc r)"
      using ih(2,3) unfolding r_def [symmetric] by simp_all
    then show ?thesis using ih(1) unfolding r by (simp add: eq)
  next
    case False
    then have "unat temp \<le> 1" by (simp add: word_less_nat_alt not_less)
    moreover have "0 < unat temp" using "1.prems" by (simp add: unat_gt_0)
    ultimately have "unat temp = 1" by simp
    moreover have "levels_loop temp levels = levels"
      using False by (subst levels_loop.simps) simp
    ultimately show ?thesis by simp
  qed
qed

lemma levels_loop_0: "levels_loop 0 0 = 0"
  by (subst levels_loop.simps) simp

lemma levels_loop_pow2: "k < 64 \<Longrightarrow> levels_loop (2 ^ k) 0 = k"
proof -
  assume k: "k < 64"
  then have nz: "(2 ^ k :: size_t) \<noteq> 0" by (rule pow2_neq0)
  define L where "L = levels_loop (2 ^ k :: size_t) 0"
  from levels_loop_bounds [OF nz, of 0]
  have "(2::nat) ^ L \<le> 2 ^ k" "(2::nat) ^ k < 2 ^ Suc L"
    by (simp_all add: L_def unat_2p k del: power_Suc)
  then have "L \<le> k" "k < Suc L"
    using pow2_le_D pow2_less_D by blast+
  then show ?thesis unfolding L_def by simp
qed

lemma levels_loop_less_64: "levels_loop n 0 < 64"
proof (cases "n = 0")
  case True
  then show ?thesis by (simp add: levels_loop_0)
next
  case False
  from levels_loop_bounds [OF False, of 0]
  have "2 ^ levels_loop n 0 \<le> unat n" by simp
  moreover have "unat n < 2 ^ LENGTH(64)" by (rule unsigned_less)
  ultimately have "(2::nat) ^ levels_loop n 0 < 2 ^ 64" by simp
  then show ?thesis by (rule power_less_imp_less_exp [rotated]) simp
qed

text \<open>
  The test \<^verbatim>\<open>1u << levels != n\<close>: it passes exactly for the powers of two below \<open>2 ^ 32\<close>.
\<close>

lemma unat_ucast_uint: "unat (ucast (w :: uint) :: size_t) = unat w"
proof -
  have "unat w < 2 ^ LENGTH(32)" by (rule unsigned_less)
  also have "\<dots> \<le> (2::nat) ^ 64" by simp
  finally have "take_bit 64 (unat w) = unat w"
    by (simp only: take_bit_nat_eq_self)
  then show ?thesis by (simp add: unsigned_ucast_eq)
qed

lemma ucast_shift_small:
  assumes "L < 32"
  shows "unat (ucast (push_bit L (1 :: uint)) :: size_t) = 2 ^ L"
proof -
  have "unat (push_bit L (1 :: uint)) = 2 ^ L"
    using assms by (simp add: push_bit_eq_mult unat_pow2_word)
  then show ?thesis
    by (simp only: unat_ucast_uint)
qed

lemma radix2_check:
  "(ucast (push_bit (levels_loop n 0) (1 :: uint)) :: size_t) = n \<longleftrightarrow> (\<exists>L<32. unat n = 2 ^ L)"
proof (cases "n = 0")
  case True
  then show ?thesis by (simp add: levels_loop_0)
next
  case False
  define L where "L = levels_loop n 0"
  from levels_loop_bounds [OF False, of 0]
  have b: "2 ^ L \<le> unat n" "unat n < 2 ^ Suc L" by (simp_all add: L_def del: power_Suc)
  show ?thesis
  proof (cases "L < 32")
    case True
    have "(ucast (push_bit L (1 :: uint)) :: size_t) = n \<longleftrightarrow> unat n = 2 ^ L"
      using ucast_shift_small [OF True] by (auto simp: word_unat_eq_iff)
    moreover have "(\<exists>K<32. unat n = 2 ^ K) \<longleftrightarrow> unat n = 2 ^ L"
    proof
      assume "\<exists>K<32. unat n = 2 ^ K"
      then obtain K where K: "unat n = 2 ^ K" by blast
      with b have "(2::nat) ^ L \<le> 2 ^ K" "(2::nat) ^ K < 2 ^ Suc L"
        by simp_all
      then have "L \<le> K" "K < Suc L"
        using pow2_le_D pow2_less_D by blast+
      then show "unat n = 2 ^ L" using K by simp
    qed (use True in blast)
    ultimately show ?thesis unfolding L_def by simp
  next
    case False
    then have "push_bit L (1 :: uint) = 0"
      by (simp add: push_bit_eq_mult not_less)
    then have "(ucast (push_bit L (1 :: uint)) :: size_t) = 0"
      by (simp only: ucast_0)
    with \<open>n \<noteq> 0\<close> have "(ucast (push_bit L (1 :: uint)) :: size_t) \<noteq> n"
      by metis
    moreover have "\<not> (\<exists>K<32. unat n = 2 ^ K)"
    proof
      assume "\<exists>K<32. unat n = 2 ^ K"
      then obtain K where K: "K < 32" "unat n = 2 ^ K" by blast
      with b have "(2::nat) ^ L \<le> 2 ^ K"
        by simp
      then have "L \<le> K" by (rule pow2_le_D)
      with K False show False by simp
    qed
    ultimately show ?thesis unfolding L_def by simp
  qed
qed

section \<open>The overflow guards of the Bluestein adapter\<close>

lemma guard_value: "(SIZE_MAX - 1) div 2 = (2 ^ 63 - 1 :: size_t)"
  by (simp add: SIZE_MAX_def)

lemma guard_iff: "(SIZE_MAX - 1) div 2 < n \<longleftrightarrow> 2 ^ 64 \<le> 2 * unat n + 1"
proof -
  have "unat ((SIZE_MAX - 1) div 2) = 2 ^ 63 - 1"
    by (simp add: SIZE_MAX_def)
  then show ?thesis
    by (auto simp: word_less_nat_alt)
qed

lemma unat_target:
  assumes "\<not> (SIZE_MAX - 1) div 2 < n"
  shows "unat (n * 2 + 1) = 2 * unat n + 1"
proof -
  from assms have lt: "2 * unat n + 1 < 2 ^ 64"
    by (simp add: guard_iff)
  have "n * 2 + 1 = word_of_nat (2 * unat n + 1)"
    by simp
  then have "unat (n * 2 + 1) = (2 * unat n + 1) mod 2 ^ LENGTH(64)"
    by (simp only: unat_of_nat)
  also have "\<dots> = 2 * unat n + 1"
    using lt by simp
  finally show ?thesis .
qed

lemma pow2_nat_least:
  assumes "i < 64" and "\<forall>j<i. (2::nat) ^ j < t" and "t \<le> 2 ^ k"
  shows "(2::nat) ^ i \<le> 2 ^ k"
proof (rule ccontr)
  assume "\<not> (2::nat) ^ i \<le> 2 ^ k"
  then have "k < i" by (simp add: not_le)
  with assms(2) have "(2::nat) ^ k < t" by blast
  with assms(3) show False by simp
qed

text \<open>
  Claim C6.  \<^verbatim>\<open>transform_bluestein\<close> returns failure, with the signal as it was and whatever
  the allocator would answer, whenever \<open>n > (SIZE_MAX - 1) / 2\<close>, that is, whenever
  \<open>2n + 1\<close> does not fit the size type.  Otherwise \<open>n * 2 + 1\<close> does not wrap, the search
  for the working length ends, and it either ends with the smallest power of two
  \<open>m \<ge> 2n + 1\<close>, or with failure when no power of two of the size type reaches \<open>2n + 1\<close>.
\<close>

theorem bluestein_overflow_guard:
  "((SIZE_MAX - 1) div 2 < n \<longleftrightarrow> 2 ^ 64 \<le> 2 * unat n + 1) \<and>
   ((SIZE_MAX - 1) div 2 < n \<longrightarrow> transform_bluestein fuel mem re im n = Some (False, re, im)) \<and>
   (\<not> (SIZE_MAX - 1) div 2 < n \<longrightarrow>
      unat (n * 2 + 1) = 2 * unat n + 1 \<and>
      (case m_loop 1 (n * 2 + 1) of
         None \<Rightarrow> False
       | Some None \<Rightarrow>
           (\<forall>k<64. unat (2 ^ k :: size_t) < 2 * unat n + 1) \<and>
           transform_bluestein fuel mem re im n = Some (False, re, im)
       | Some (Some m) \<Rightarrow>
           (\<exists>k<64. m = 2 ^ k) \<and> 2 * unat n + 1 \<le> unat m \<and>
           (\<forall>k. 2 * unat n + 1 \<le> 2 ^ k \<longrightarrow> unat m \<le> 2 ^ k)))"
proof (intro conjI impI)
  show "(SIZE_MAX - 1) div 2 < n \<longleftrightarrow> 2 ^ 64 \<le> 2 * unat n + 1"
    by (rule guard_iff)
next
  assume "(SIZE_MAX - 1) div 2 < n"
  then show "transform_bluestein fuel mem re im n = Some (False, re, im)"
    by (simp add: transform_bluestein_def transform_bluestein_with_def)
next
  assume g: "\<not> (SIZE_MAX - 1) div 2 < n"
  then show "unat (n * 2 + 1) = 2 * unat n + 1"
    by (rule unat_target)
next
  assume g: "\<not> (SIZE_MAX - 1) div 2 < n"
  have t: "unat (n * 2 + 1) = 2 * unat n + 1"
    using g by (rule unat_target)
  from m_loop_1 [of "n * 2 + 1"]
  show "case m_loop 1 (n * 2 + 1) of
         None \<Rightarrow> False
       | Some None \<Rightarrow>
           (\<forall>k<64. unat (2 ^ k :: size_t) < 2 * unat n + 1) \<and>
           transform_bluestein fuel mem re im n = Some (False, re, im)
       | Some (Some m) \<Rightarrow>
           (\<exists>k<64. m = 2 ^ k) \<and> 2 * unat n + 1 \<le> unat m \<and>
           (\<forall>k. 2 * unat n + 1 \<le> 2 ^ k \<longrightarrow> unat m \<le> 2 ^ k)"
  proof (elim disjE conjE exE)
    assume m: "m_loop 1 (n * 2 + 1) = Some None"
      and all: "\<forall>j<64. (2 ^ j :: size_t) < n * 2 + 1"
    have "\<forall>k<64. unat (2 ^ k :: size_t) < 2 * unat n + 1"
      using all by (simp add: word_less_nat_alt t)
    moreover have "transform_bluestein fuel mem re im n = Some (False, re, im)"
      by (simp add: transform_bluestein_def transform_bluestein_with_def m)
    ultimately show ?thesis by (simp add: m)
  next
    fix i assume i: "i < 64" and m: "m_loop 1 (n * 2 + 1) = Some (Some (2 ^ i))"
      and le: "n * 2 + 1 \<le> 2 ^ i" and less: "\<forall>j<i. (2 ^ j :: size_t) < n * 2 + 1"
    have a: "\<exists>k<64. (2 ^ i :: size_t) = 2 ^ k" using i by blast
    have b: "2 * unat n + 1 \<le> unat (2 ^ i :: size_t)"
      using le by (simp add: word_le_nat_alt t)
    have "\<forall>j<i. (2::nat) ^ j < 2 * unat n + 1"
    proof (intro allI impI)
      fix j assume "j < i"
      with less i have "(2 ^ j :: size_t) < n * 2 + 1" "j < 64" by auto
      then show "(2::nat) ^ j < 2 * unat n + 1"
        by (simp add: word_less_nat_alt t unat_2p)
    qed
    then have c: "\<forall>k. 2 * unat n + 1 \<le> 2 ^ k \<longrightarrow> unat (2 ^ i :: size_t) \<le> 2 ^ k"
      using pow2_nat_least [OF i] by (simp add: unat_2p i)
    show ?thesis using a b c by (simp add: m)
  qed
qed

lemma m_loop_7: "m_loop 1 7 = Some (Some 8)"
  by (simp add: m_loop.simps size_max_half)

lemma no_pow2_above: "k < 64 \<Longrightarrow> \<not> (2 ^ 63 + 1 :: size_t) \<le> 2 ^ k"
proof -
  assume "k < 64"
  then have "(2::nat) ^ k \<le> 2 ^ 63"
    by (intro power_increasing) simp_all
  moreover have "unat (2 ^ 63 + 1 :: size_t) = 2 ^ 63 + 1" by simp
  ultimately show ?thesis
    using \<open>k < 64\<close> by (simp add: word_le_nat_alt unat_2p)
qed

lemma m_loop_big: "m_loop 1 (2 ^ 62 * 2 + 1) = Some None"
  using m_loop_1 [of "2 ^ 62 * 2 + 1"] no_pow2_above by auto

theorem bluestein_overflow_guard_witness:
  "transform_bluestein 0 (\<lambda>_. True) [1, 2] [3, 4] (2 ^ 63) = Some (False, [1, 2], [3, 4]) \<and>
   m_loop 1 (3 * 2 + 1) = Some (Some 8) \<and> (\<exists>k<64. (8 :: size_t) = 2 ^ k) \<and>
   m_loop 1 (2 ^ 62 * 2 + 1) = Some None \<and>
   transform_bluestein 0 (\<lambda>_. True) [1, 2] [3, 4] (2 ^ 62) = Some (False, [1, 2], [3, 4])"
proof -
  have g1: "(SIZE_MAX - 1) div 2 < (2 ^ 63 :: size_t)"
    by (simp add: SIZE_MAX_def)
  have g2: "\<not> (SIZE_MAX - 1) div 2 < (3 :: size_t)"
    by (simp add: SIZE_MAX_def)
  have g3: "\<not> (SIZE_MAX - 1) div 2 < (2 ^ 62 :: size_t)"
    by (simp add: SIZE_MAX_def)
  have m3: "m_loop 1 (3 * 2 + 1) = Some (Some 8)"
    using m_loop_7 by simp
  have w1: "transform_bluestein 0 (\<lambda>_. True) [1, 2] [3, 4] (2 ^ 63) = Some (False, [1, 2], [3, 4])"
    using bluestein_overflow_guard [of "2 ^ 63" 0 "\<lambda>_. True" "[1, 2]" "[3, 4]"] g1 by blast
  have "case m_loop 1 (3 * 2 + 1) of
         None \<Rightarrow> False
       | Some None \<Rightarrow>
           (\<forall>k<64. unat (2 ^ k :: size_t) < 2 * unat (3 :: size_t) + 1) \<and>
           transform_bluestein 0 (\<lambda>_. True) [1, 2] [3, 4] 3 = Some (False, [1, 2], [3, 4])
       | Some (Some m) \<Rightarrow>
           (\<exists>k<64. m = 2 ^ k) \<and> 2 * unat (3 :: size_t) + 1 \<le> unat m \<and>
           (\<forall>k. 2 * unat (3 :: size_t) + 1 \<le> 2 ^ k \<longrightarrow> unat m \<le> 2 ^ k)"
    using bluestein_overflow_guard [of 3 0 "\<lambda>_. True" "[1, 2]" "[3, 4]"] g2 by blast
  then have w2: "\<exists>k<64. (8 :: size_t) = 2 ^ k"
    by (simp only: m3 option.case)
  have "case m_loop 1 (2 ^ 62 * 2 + 1) of
         None \<Rightarrow> False
       | Some None \<Rightarrow>
           (\<forall>k<64. unat (2 ^ k :: size_t) < 2 * unat (2 ^ 62 :: size_t) + 1) \<and>
           transform_bluestein 0 (\<lambda>_. True) [1, 2] [3, 4] (2 ^ 62) = Some (False, [1, 2], [3, 4])
       | Some (Some m) \<Rightarrow>
           (\<exists>k<64. m = 2 ^ k) \<and> 2 * unat (2 ^ 62 :: size_t) + 1 \<le> unat m \<and>
           (\<forall>k. 2 * unat (2 ^ 62 :: size_t) + 1 \<le> 2 ^ k \<longrightarrow> unat m \<le> 2 ^ k)"
    using bluestein_overflow_guard [of "2 ^ 62" 0 "\<lambda>_. True" "[1, 2]" "[3, 4]"] g3 by blast
  then have w3: "transform_bluestein 0 (\<lambda>_. True) [1, 2] [3, 4] (2 ^ 62) = Some (False, [1, 2], [3, 4])"
    by (simp only: m_loop_big option.case)
  show ?thesis
    using w1 m3 w2 m_loop_big w3 by blast
qed

section \<open>Bit reversal is an involution, and the addressing loop a permutation\<close>

lemma reverse_bits_loop_bit:
  "j < 64 \<Longrightarrow> bit (reverse_bits_loop i n x r) j \<longleftrightarrow>
     (if j < n - i then bit x (n - i - 1 - j) else bit r (j - (n - i)))"
proof (induction i n x r arbitrary: j rule: reverse_bits_loop.induct)
  case (1 i n x r)
  show ?case
  proof (cases "i < n")
    case False
    then show ?thesis by (subst reverse_bits_loop.simps) simp
  next
    case True
    have eq: "reverse_bits_loop i n x r
        = reverse_bits_loop (Suc i) n (drop_bit 1 x) (push_bit 1 r OR (x AND 1))"
      using True by (subst reverse_bits_loop.simps) simp
    note ih = "1.IH" [OF True "1.prems"]
    consider "j < n - Suc i" | "j = n - Suc i" | "n - i \<le> j"
      using True by linarith
    then show ?thesis
    proof cases
      case 1
      then have "Suc (n - Suc i - 1 - j) = n - i - 1 - j" "j < n - i" by simp_all
      with 1 show ?thesis
        unfolding eq ih by (simp add: bit_drop_bit_eq del: diff_Suc_eq_diff_pred)
    next
      case 2
      then have "j < n - i" "n - i - 1 - j = 0" using True by simp_all
      with 2 show ?thesis
        unfolding eq ih
        by (simp add: bit_or_iff bit_push_bit_iff bit_and_iff bit_1_iff bit_0 even_or_iff even_and_iff)
    next
      case 3
      then have "\<not> j < n - Suc i" "\<not> j < n - i" "j - (n - Suc i) = Suc (j - (n - i))"
        using True by simp_all
      moreover have "Suc (j - (n - i)) < 64" using "1.prems" 3 True by simp
      moreover have "bit (push_bit 1 r) (Suc (j - (n - i))) \<longleftrightarrow> bit r (j - (n - i))"
        using \<open>Suc (j - (n - i)) < 64\<close> unfolding bit_push_bit_iff by simp
      ultimately show ?thesis
        unfolding eq ih bit_or_iff by (simp add: bit_and_iff bit_1_iff del: push_bit_of_Suc_0)
    qed
  qed
qed

lemma reverse_bits_bit:
  "bit (reverse_bits x w) j \<longleftrightarrow> j < w \<and> j < 64 \<and> bit x (w - 1 - j)"
proof (cases "j < 64")
  case True
  then show ?thesis
    unfolding reverse_bits_def by (simp add: reverse_bits_loop_bit)
next
  case False
  then have "\<not> bit (reverse_bits x w) j"
    by (auto dest: bit_imp_le_length)
  with False show ?thesis by simp
qed

lemma bit_below:
  assumes "unat (x :: size_t) < 2 ^ w" and "bit x j"
  shows "j < w"
proof (rule ccontr)
  assume "\<not> j < w"
  then have "w \<le> j" by simp
  from assms(2) have "bit (unat x) j" by (simp add: bit_unsigned_iff)
  moreover have "take_bit w (unat x) = unat x"
    using assms(1) by (simp only: take_bit_nat_eq_self)
  ultimately have "bit (take_bit w (unat x)) j" by simp
  then show False using \<open>\<not> j < w\<close> by (simp add: bit_take_bit_iff)
qed

lemma unat_less_pow2I:
  assumes "\<And>j. bit (y :: size_t) j \<Longrightarrow> j < w"
  shows "unat y < 2 ^ w"
proof -
  have "take_bit w y = y"
    by (rule bit_eqI) (auto simp: bit_take_bit_iff dest: assms)
  then have "unat y = take_bit w (unat y)"
    by (metis unsigned_take_bit_eq)
  then show ?thesis
    by (metis take_bit_nat_less_exp)
qed

lemma reverse_bits_less: "unat (reverse_bits x w) < 2 ^ w"
  by (rule unat_less_pow2I) (simp add: reverse_bits_bit)

lemma reverse_bits_involution:
  assumes "w \<le> 64" and "unat x < 2 ^ w"
  shows "reverse_bits (reverse_bits x w) w = x"
proof (rule bit_eqI)
  fix j
  show "bit (reverse_bits (reverse_bits x w) w) j \<longleftrightarrow> bit x j"
  proof (cases "j < w \<and> j < 64")
    case True
    then have "w - 1 - j < w" "w - 1 - (w - 1 - j) = j" "w - 1 - j < 64"
      using assms(1) by auto
    with True show ?thesis by (simp add: reverse_bits_bit)
  next
    case False
    then have "\<not> bit x j"
      using bit_below [OF assms(2)] bit_imp_le_length [of x j] by auto
    with False show ?thesis by (auto simp: reverse_bits_bit)
  qed
qed

lemma brev_less: "brev L i < 2 ^ L"
  unfolding brev_def by (rule reverse_bits_less)

lemma unat_word_of_nat_small:
  assumes "L \<le> 64" and "i < 2 ^ L"
  shows "unat (word_of_nat i :: size_t) = i"
proof -
  have "(2::nat) ^ L \<le> 2 ^ 64" using assms(1) by (intro power_increasing) simp_all
  with assms(2) have "i < 2 ^ LENGTH(64)" by simp
  then show ?thesis by (simp only: unat_of_nat mod_less)
qed

lemma brev_involution:
  assumes "L \<le> 64" and "i < 2 ^ L"
  shows "brev L (brev L i) = i"
proof -
  have "unat (word_of_nat i :: size_t) < 2 ^ L"
    using assms by (simp add: unat_word_of_nat_small)
  then have "reverse_bits (reverse_bits (word_of_nat i) L) L = (word_of_nat i :: size_t)"
    using assms(1) by (rule reverse_bits_involution [rotated])
  then show ?thesis
    unfolding brev_def by (simp add: unat_word_of_nat_small [OF assms])
qed

lemma swap_step:
  fixes xs :: "'a list"
  assumes L: "L \<le> 64" and n: "n = 2 ^ L" and k: "k < n"
  defines "ys \<equiv> map (partly_reversed L xs k) [0..<n]"
  shows "(if k < brev L k then ys[k := ys ! brev L k, brev L k := ys ! k] else ys)
       = map (partly_reversed L xs (Suc k)) [0..<n]"
proof -
  define j where "j = brev L k"
  have j: "j < n" unfolding j_def n by (rule brev_less)
  have jk: "brev L j = k" unfolding j_def using L k n by (simp add: brev_involution)
  have inj: "\<And>i. i < n \<Longrightarrow> brev L i = k \<Longrightarrow> i = j"
    using brev_involution [OF L] n j_def by metis
  have len: "length ys = n" by (simp add: ys_def)
  show ?thesis
  proof (cases "k < j")
    case True
    have "ys[k := ys ! j, j := ys ! k] = map (partly_reversed L xs (Suc k)) [0..<n]"
    proof (rule nth_equalityI)
      show "length (ys[k := ys ! j, j := ys ! k]) = length (map (partly_reversed L xs (Suc k)) [0..<n])"
        by (simp add: len)
    next
      fix i assume "i < length (ys[k := ys ! j, j := ys ! k])"
      then have i: "i < n" by (simp add: len)
      consider "i = k" | "i = j" | "i \<noteq> k" "i \<noteq> j" by blast
      then show "ys[k := ys ! j, j := ys ! k] ! i = map (partly_reversed L xs (Suc k)) [0..<n] ! i"
      proof cases
        case 1
        with True i j k show ?thesis
          by (simp add: len ys_def partly_reversed_def jk j_def [symmetric])
      next
        case 2
        with True i j k show ?thesis
          by (simp add: len ys_def partly_reversed_def jk j_def [symmetric])
      next
        case 3
        then have "brev L i \<noteq> k" using inj [OF i] by blast
        with 3 i show ?thesis
          by (auto simp: len ys_def partly_reversed_def less_Suc_eq min_def)
      qed
    qed
    with True show ?thesis by (simp add: j_def)
  next
    case False
    have "ys = map (partly_reversed L xs (Suc k)) [0..<n]"
      unfolding ys_def
    proof (rule map_cong [OF refl])
      fix i assume "i \<in> set [0..<n]"
      then have i: "i < n" by simp
      show "partly_reversed L xs k i = partly_reversed L xs (Suc k) i"
      proof (cases "i = k")
        case True
        with False show ?thesis
          by (auto simp: partly_reversed_def j_def min_def less_Suc_eq)
      next
        case ik: False
        show ?thesis
        proof (cases "brev L i = k")
          case True
          then have "i = j" using inj [OF i] by blast
          with False ik True show ?thesis
            by (auto simp: partly_reversed_def min_def less_Suc_eq)
        next
          case False
          with ik show ?thesis
            by (auto simp: partly_reversed_def min_def less_Suc_eq)
        qed
      qed
    qed
    with False show ?thesis by (simp add: j_def)
  qed
qed

lemma bitrev_step_partly:
  assumes "L \<le> 64" and "n = 2 ^ L" and "k < n"
  shows "bitrev_step L k (map (partly_reversed L re k) [0..<n], map (partly_reversed L im k) [0..<n])
       = (map (partly_reversed L re (Suc k)) [0..<n], map (partly_reversed L im (Suc k)) [0..<n])"
proof (cases "k < brev L k")
  case True
  with swap_step [OF assms, of re] swap_step [OF assms, of im] show ?thesis
    by (simp add: bitrev_step_def Let_def brev_def [symmetric])
next
  case False
  with swap_step [OF assms, of re] swap_step [OF assms, of im] show ?thesis
    by (simp add: bitrev_step_def Let_def brev_def [symmetric])
qed

lemma bitrev_fold:
  assumes "L \<le> 64" and "n = 2 ^ L" and "k \<le> n" and "length re = n" and "length im = n"
  shows "fold (bitrev_step L) [0..<k] (re, im)
       = (map (partly_reversed L re k) [0..<n], map (partly_reversed L im k) [0..<n])"
  using assms(3)
proof (induction k)
  case 0
  have "map (partly_reversed L re 0) [0..<n] = re" "map (partly_reversed L im 0) [0..<n] = im"
    using assms(4,5) by (simp_all add: partly_reversed_def list_eq_iff_nth_eq)
  then show ?case by simp
next
  case (Suc k)
  then have "k < n" "k \<le> n" by simp_all
  with Suc.IH show ?case
    by (simp add: bitrev_step_partly [OF assms(1,2)])
qed

lemma bitrev_pass_spec:
  assumes "L \<le> 64" and "n = 2 ^ L" and "length re = n" and "length im = n"
  shows "bitrev_pass L n (re, im)
       = (map (\<lambda>i. re ! brev L i) [0..<n], map (\<lambda>i. im ! brev L i) [0..<n])"
proof -
  have "\<And>xs :: real list. map (partly_reversed L xs n) [0..<n] = map (\<lambda>i. xs ! brev L i) [0..<n]"
    by (rule map_cong [OF refl]) (simp add: partly_reversed_def min_def)
  then show ?thesis
    unfolding bitrev_pass_def using bitrev_fold [OF assms(1,2) order_refl assms(3,4)] by simp
qed

lemma brev_bij: 
  assumes "w \<le> 64"
  shows "bij_betw (brev w) {..<2 ^ w} {..<2 ^ w}"
proof (rule bij_betw_byWitness [where f' = "brev w"])
  show "\<forall>a\<in>{..<2 ^ w}. brev w (brev w a) = a"
    using brev_involution [OF assms] by simp
  show "\<forall>a'\<in>{..<2 ^ w}. brev w (brev w a') = a'"
    using brev_involution [OF assms] by simp
  show "brev w ` {..<2 ^ w} \<subseteq> {..<2 ^ w}" "brev w ` {..<2 ^ w} \<subseteq> {..<2 ^ w}"
    using brev_less by auto
qed

text \<open>
  Claim C10.  For a width \<open>w\<close> up to 64 and \<open>x < 2 ^ w\<close>, \<^verbatim>\<open>reverse_bits(x, w)\<close> is
  below \<open>2 ^ w\<close> and reversing twice gives \<open>x\<close> back, so that the reversal is a bijection
  on \<open>0 .. 2 ^ w - 1\<close>; the addressing loop of \<^verbatim>\<open>transform_radix2\<close> on \<open>2 ^ w\<close> samples keeps
  the lengths and moves the sample at index \<open>i\<close> to index \<^verbatim>\<open>reverse_bits(i, w)\<close>.
\<close>

theorem reverse_bits_permutation:
  assumes "w \<le> 64" and "unat x < 2 ^ w"
    and "length re = 2 ^ w" and "length im = 2 ^ w" and "i < 2 ^ w"
  shows "unat (reverse_bits x w) < 2 ^ w \<and>
         reverse_bits (reverse_bits x w) w = x \<and>
         bij_betw (\<lambda>i. unat (reverse_bits (word_of_nat i) w)) {..<2 ^ w} {..<2 ^ w} \<and>
         length (fst (bitrev_pass w (2 ^ w) (re, im))) = 2 ^ w \<and>
         length (snd (bitrev_pass w (2 ^ w) (re, im))) = 2 ^ w \<and>
         fst (bitrev_pass w (2 ^ w) (re, im)) ! unat (reverse_bits (word_of_nat i) w) = re ! i \<and>
         snd (bitrev_pass w (2 ^ w) (re, im)) ! unat (reverse_bits (word_of_nat i) w) = im ! i"
proof -
  have pass: "bitrev_pass w (2 ^ w) (re, im)
       = (map (\<lambda>i. re ! brev w i) [0..<2 ^ w], map (\<lambda>i. im ! brev w i) [0..<2 ^ w])"
    using assms(1) refl assms(3,4) by (rule bitrev_pass_spec)
  have b: "brev w i < 2 ^ w" by (rule brev_less)
  have inv: "brev w (brev w i) = i" using assms(1,5) by (rule brev_involution)
  have "bij_betw (brev w) {..<2 ^ w} {..<2 ^ w}" using assms(1) by (rule brev_bij)
  then have bij: "bij_betw (\<lambda>i. unat (reverse_bits (word_of_nat i) w)) {..<2 ^ w} {..<2 ^ w}"
    by (simp add: brev_def [abs_def])
  have "fst (bitrev_pass w (2 ^ w) (re, im)) ! brev w i = re ! i"
    "snd (bitrev_pass w (2 ^ w) (re, im)) ! brev w i = im ! i"
    using b by (simp_all add: pass inv)
  then have nth: "fst (bitrev_pass w (2 ^ w) (re, im)) ! unat (reverse_bits (word_of_nat i) w) = re ! i"
    "snd (bitrev_pass w (2 ^ w) (re, im)) ! unat (reverse_bits (word_of_nat i) w) = im ! i"
    by (simp_all add: brev_def)
  have len: "length (fst (bitrev_pass w (2 ^ w) (re, im))) = 2 ^ w"
    "length (snd (bitrev_pass w (2 ^ w) (re, im))) = 2 ^ w"
    by (simp_all add: pass)
  show ?thesis
    using reverse_bits_less [of x w] reverse_bits_involution [OF assms(1,2)] bij len nth
    by blast
qed

lemma reverse_bits_1_2: "reverse_bits 1 2 = 2"
  by (simp add: reverse_bits_def reverse_bits_loop.simps)

theorem reverse_bits_permutation_witness:
  "reverse_bits (1 :: size_t) 2 = 2 \<and> reverse_bits (reverse_bits 1 2) 2 = 1 \<and>
   fst (bitrev_pass 2 (2 ^ 2) ([10, 11, 12, 13], [20, 21, 22, 23])) ! 2 = 11 \<and>
   snd (bitrev_pass 2 (2 ^ 2) ([10, 11, 12, 13], [20, 21, 22, 23])) ! 2 = 21"
proof -
  have h: "(2::nat) \<le> 64" "unat (1 :: size_t) < 2 ^ 2"
    "length [10, 11, 12, 13 :: real] = 2 ^ 2" "length [20, 21, 22, 23 :: real] = 2 ^ 2"
    "(1::nat) < 2 ^ 2"
    by simp_all
  have r: "unat (reverse_bits (word_of_nat 1 :: size_t) 2) = 2"
    by (simp add: reverse_bits_1_2)
  show ?thesis
    using reverse_bits_permutation [OF h] by (simp add: r reverse_bits_1_2)
qed

section \<open>The transform of length two\<close>

lemma brev_1: "brev (Suc 0) 0 = 0" "brev (Suc 0) (Suc 0) = Suc 0"
  by (simp_all add: brev_def reverse_bits_def reverse_bits_loop.simps)

lemma bitrev_pass_2: "bitrev_pass (Suc 0) 2 ([a, b], [c, d]) = ([a, b], [c, d])"
proof -
  have "bitrev_pass (Suc 0) (2 ^ Suc 0) ([a, b], [c, d])
      = (map (\<lambda>i. [a, b] ! brev (Suc 0) i) [0..<2 ^ Suc 0], map (\<lambda>i. [c, d] ! brev (Suc 0) i) [0..<2 ^ Suc 0])"
    by (rule bitrev_pass_spec) simp_all
  moreover have "[0..<2] = [0, Suc 0]" by (simp add: upt_rec)
  ultimately show ?thesis by (simp add: brev_1)
qed

lemma stage_loop_2:
  "stage_loop [1] [0] 2 2 ([a, b], [c, d]) = ([a + b, a - b], [c + d, c - d])"
proof -
  have b: "butterfly [1] [0] (Suc 0) 0 0 ([a, b], [c, d]) = ([a + b, a - b], [c + d, c - d])"
    by (simp add: butterfly_def Let_def)
  have "butterfly_loop [1] [0] (Suc 0) (Suc 0) (Suc 0) 0 0 ([a, b], [c, d])
      = ([a + b, a - b], [c + d, c - d])"
    by (subst butterfly_loop.simps, simp add: b, subst butterfly_loop.simps, simp)
  then have "block_loop [1] [0] 2 2 0 ([a, b], [c, d]) = ([a + b, a - b], [c + d, c - d])"
    by (subst block_loop.simps, simp, subst block_loop.simps, simp)
  then show ?thesis
    by (subst stage_loop.simps) simp
qed

lemma radix2_tables_2: "radix2_cos_table 2 = [1]" "radix2_sin_table 2 = [0]"
  by (simp_all add: radix2_cos_table_def radix2_sin_table_def)

lemma transform_radix2_2:
  assumes "mem 8"
  shows "transform_radix2 mem [a, b] [c, d] 2 = (True, [a + b, a - b], [c + d, c - d])"
proof -
  have l: "levels_loop (2 :: size_t) 0 = Suc 0"
    using levels_loop_pow2 [of 1] by simp
  show ?thesis
    using assms
    by (simp add: transform_radix2_def l SIZE_MAX_def sizeof_double_def radix2_tables_2
        bitrev_pass_2 stage_loop_2 Let_def)
qed

lemma transform_2:
  assumes "mem 8"
  shows "transform fuel mem [a, b] [c, d] 2 = Some (True, [a + b, a - b], [c + d, c - d])"
  using transform_pow2 [of 1 fuel mem "[a, b]" "[c, d]"] transform_radix2_2 [of mem a b c d] assms
  by simp

section \<open>The dispatcher and its callers\<close>

lemma transform_radix2_status:
  "fst (transform_radix2 mem re im n) \<longleftrightarrow>
     (\<exists>L<32. unat n = 2 ^ L) \<and> \<not> SIZE_MAX div sizeof_double < n div 2 \<and> mem ((n div 2) * sizeof_double)"
  using radix2_check [of n] by (auto simp: transform_radix2_def Let_def)

lemma transform_radix2_failure:
  "\<not> fst (transform_radix2 mem re im n) \<Longrightarrow> transform_radix2 mem re im n = (False, re, im)"
  by (auto simp: transform_radix2_def Let_def split: if_splits)

lemma transform_radix2_not_pow2:
  assumes "\<not> (\<exists>k. unat n = 2 ^ k)"
  shows "transform_radix2 mem re im n = (False, re, im)"
proof -
  from assms have "\<not> (\<exists>L<32. unat n = 2 ^ L)" by blast
  then have "\<not> fst (transform_radix2 mem re im n)"
    by (simp add: transform_radix2_status)
  then show ?thesis by (rule transform_radix2_failure)
qed

text \<open>
  Claim C7.  The claim has two halves.  That \<^verbatim>\<open>transform_radix2\<close> fails for every \<open>n\<close>
  that is not a power of two, \<open>n = 0\<close> included, holds (\<open>transform_radix2_not_pow2\<close>).
  That its test passes for every power of two does not: the test shifts the
  \<^verbatim>\<open>unsigned int\<close> constant \<^verbatim>\<open>1u\<close>, so it passes for the powers of two below \<open>2 ^ 32\<close> only
  (\<open>radix2_check\<close>).  At \<open>n = 2 ^ 32\<close>, a power of two for which the table size does not
  overflow and the allocator grants every request, the function returns failure.
\<close>

theorem transform_radix2_rejects_2p32:
  "(\<exists>k. unat (2 ^ 32 :: size_t) = 2 ^ k) \<and>
   \<not> SIZE_MAX div sizeof_double < (2 ^ 32 :: size_t) div 2 \<and>
   transform_radix2 (\<lambda>_. True) re im (2 ^ 32) = (False, re, im)"
proof -
  have u: "unat (2 ^ 32 :: size_t) = 2 ^ 32" by (simp add: unat_2p)
  have "\<not> (\<exists>L<32. unat (2 ^ 32 :: size_t) = 2 ^ L)"
  proof
    assume "\<exists>L<32. unat (2 ^ 32 :: size_t) = 2 ^ L"
    then obtain L where L: "L < 32" "(2::nat) ^ 32 = 2 ^ L" unfolding u by blast
    have "(2::nat) ^ L < 2 ^ 32"
      using L(1) by (intro power_strict_increasing) simp_all
    then show False unfolding L(2) by (simp only: less_irrefl)
  qed
  then have "\<not> fst (transform_radix2 (\<lambda>_. True) re im (2 ^ 32))"
    by (simp only: transform_radix2_status) simp
  then have "transform_radix2 (\<lambda>_. True) re im (2 ^ 32) = (False, re, im)"
    by (rule transform_radix2_failure)
  moreover have "\<not> SIZE_MAX div sizeof_double < (2 ^ 32 :: size_t) div 2"
    by (simp add: SIZE_MAX_def sizeof_double_def)
  moreover have "\<exists>k. unat (2 ^ 32 :: size_t) = 2 ^ k" using u by blast
  ultimately show ?thesis by blast
qed

text \<open>
  Claim C5.  \<^verbatim>\<open>transform\<close> on length \<open>0\<close> succeeds and leaves the buffers as they are; on
  a power of two it returns what \<^verbatim>\<open>transform_radix2\<close> returns; on any other length
  \<open>n \<ge> 1\<close> it returns what \<^verbatim>\<open>transform_bluestein\<close> returns.
\<close>

theorem transform_dispatch:
  "transform fuel mem re im 0 = Some (True, re, im) \<and>
   ((\<exists>k. unat n = 2 ^ k) \<longrightarrow>
      transform fuel mem re im n = Some (transform_radix2 mem re im n)) \<and>
   (n \<noteq> 0 \<and> \<not> (\<exists>k. unat n = 2 ^ k) \<longrightarrow>
      transform (Suc fuel) mem re im n = transform_bluestein fuel mem re im n)"
proof (intro conjI impI)
  show "transform fuel mem re im 0 = Some (True, re, im)"
    by (cases fuel) simp_all
next
  assume "\<exists>k. unat n = 2 ^ k"
  then obtain k where "k < 64" "n = 2 ^ k"
    unfolding pow2_word_iff by blast
  then show "transform fuel mem re im n = Some (transform_radix2 mem re im n)"
    by (simp only: transform_pow2)
next
  assume a: "n \<noteq> 0 \<and> \<not> (\<exists>k. unat n = 2 ^ k)"
  then have "n AND (n - 1) \<noteq> 0"
    using word_and_pred_zero_iff [of n] pow2_word_iff [of n] by blast
  with a show "transform (Suc fuel) mem re im n = transform_bluestein fuel mem re im n"
    by (simp add: transform_bluestein_def)
qed

lemma three_not_pow2: "\<not> (\<exists>k. unat (3 :: size_t) = 2 ^ k)"
proof -
  have "(3 :: size_t) AND (3 - 1) \<noteq> 0" by simp
  then show ?thesis
    using word_and_pred_zero_iff [of 3] pow2_word_iff [of 3] by simp
qed

theorem transform_dispatch_witness:
  "transform 0 (\<lambda>_. True) [1, 2, 3, 4] [0, 0, 0, 0] 4
     = Some (transform_radix2 (\<lambda>_. True) [1, 2, 3, 4] [0, 0, 0, 0] 4) \<and>
   transform (Suc 0) (\<lambda>_. True) [1, 2, 3] [0, 0, 0] 3
     = transform_bluestein 0 (\<lambda>_. True) [1, 2, 3] [0, 0, 0] 3"
proof -
  have "unat (4 :: size_t) = 2 ^ 2" by simp
  then have p: "\<exists>k. unat (4 :: size_t) = 2 ^ k" by blast
  have q: "(3 :: size_t) \<noteq> 0 \<and> \<not> (\<exists>k. unat (3 :: size_t) = 2 ^ k)"
    using three_not_pow2 by simp
  show ?thesis
    using transform_dispatch [of 0 "\<lambda>_. True" "[1, 2, 3, 4]" "[0, 0, 0, 0]" 4] p
      transform_dispatch [of 0 "\<lambda>_. True" "[1, 2, 3]" "[0, 0, 0]" 3] q
    by blast
qed

text \<open>
  Claim C8.  \<^verbatim>\<open>inverse_transform(real, imag, n)\<close> returns the status of
  \<^verbatim>\<open>transform(imag, real, n)\<close> and leaves the two buffers as that call leaves them.  Nothing
  is rescaled: on the forward transform \<open>[a + b, a - b]\<close> of a signal \<open>[a, b]\<close> of length 2
  it gives \<open>[2a, 2b]\<close>.
\<close>

theorem inverse_transform_swaps:
  "inverse_transform fuel mem re im n
     = map_option (\<lambda>(status, im', re'). (status, re', im')) (transform fuel mem im re n) \<and>
   inverse_transform fuel (\<lambda>_. True) [a + b, a - b] [c + d, c - d] 2
     = Some (True, [2 * a, 2 * b], [2 * c, 2 * d])"
proof
  show "inverse_transform fuel mem re im n
     = map_option (\<lambda>(status, im', re'). (status, re', im')) (transform fuel mem im re n)"
    by (simp add: inverse_transform_def inverse_transform_with_def split: option.splits)
  show "inverse_transform fuel (\<lambda>_. True) [a + b, a - b] [c + d, c - d] 2
     = Some (True, [2 * a, 2 * b], [2 * c, 2 * d])"
    by (simp add: inverse_transform_def inverse_transform_with_def transform_2)
qed

text \<open>
  Claim C9.  The length \<open>m\<close> that \<^verbatim>\<open>transform_bluestein\<close> hands to \<^verbatim>\<open>convolve_complex\<close> is
  a power of two, and on it \<^verbatim>\<open>transform\<close> takes the radix-2 branch whatever the fuel, the
  allocator and the buffers.  Hence \<^verbatim>\<open>transform_bluestein\<close> returns with fuel \<open>0\<close>, that is,
  without being entered again, more fuel changes nothing, and \<^verbatim>\<open>transform\<close> returns once a
  single entry into \<^verbatim>\<open>transform_bluestein\<close> is allowed.
\<close>

theorem bluestein_recursion_depth:
  "(\<not> (SIZE_MAX - 1) div 2 < n \<and> m_loop 1 (n * 2 + 1) = Some (Some m) \<longrightarrow>
      (\<exists>k. unat m = 2 ^ k) \<and>
      (\<forall>fuel' mem' xr xi. transform fuel' mem' xr xi m = Some (transform_radix2 mem' xr xi m))) \<and>
   transform_bluestein 0 mem re im n \<noteq> None \<and>
   transform_bluestein fuel mem re im n = transform_bluestein 0 mem re im n \<and>
   transform (Suc fuel) mem re im n \<noteq> None \<and>
   transform (Suc fuel) mem re im n = transform (Suc 0) mem re im n"
proof (intro conjI impI)
  assume "\<not> (SIZE_MAX - 1) div 2 < n \<and> m_loop 1 (n * 2 + 1) = Some (Some m)"
  with m_loop_1 [of "n * 2 + 1"] obtain i where i: "i < 64" "m = 2 ^ i"
    by auto
  then have "unat m = 2 ^ i" by (simp add: unat_2p)
  then show "\<exists>k. unat m = 2 ^ k" ..
  show "\<forall>fuel' mem' xr xi. transform fuel' mem' xr xi m = Some (transform_radix2 mem' xr xi m)"
    using i by (simp only: transform_pow2) simp
next
  show "transform_bluestein 0 mem re im n \<noteq> None"
    by (rule transform_bluestein_returns)
  show "transform_bluestein fuel mem re im n = transform_bluestein 0 mem re im n"
    by (rule transform_bluestein_fuel)
  show "transform (Suc fuel) mem re im n \<noteq> None"
    by (rule transform_returns)
  show "transform (Suc fuel) mem re im n = transform (Suc 0) mem re im n"
    by (rule transform_fuel)
qed

theorem bluestein_recursion_depth_witness:
  "m_loop 1 (3 * 2 + 1) = Some (Some 8) \<and> (\<exists>k. unat (8 :: size_t) = 2 ^ k) \<and>
   transform 0 (\<lambda>_. True) [1, 2, 3, 4, 5, 6, 7, 8] [0, 0, 0, 0, 0, 0, 0, 0] 8
     = Some (transform_radix2 (\<lambda>_. True) [1, 2, 3, 4, 5, 6, 7, 8] [0, 0, 0, 0, 0, 0, 0, 0] 8)"
proof -
  have g: "\<not> (SIZE_MAX - 1) div 2 < (3 :: size_t)"
    by (simp add: SIZE_MAX_def)
  have m: "m_loop 1 (3 * 2 + 1) = Some (Some 8)"
    using m_loop_7 by simp
  from bluestein_recursion_depth [of 3 8 "\<lambda>_. True" "[]" "[]" 0] g m
  have "(\<exists>k. unat (8 :: size_t) = 2 ^ k) \<and>
      (\<forall>fuel' mem' xr xi. transform fuel' mem' xr xi 8 = Some (transform_radix2 mem' xr xi 8))"
    by blast
  with m show ?thesis by blast
qed

text \<open>
  Claim C1.  The claim fails at bin \<open>n / 2\<close> of the first spectrum: the code stores
  \<^verbatim>\<open>X_imag[n/2]\<close> into \<^verbatim>\<open>X1_real[n/2]\<close>, where the separation formula of its own comment
  gives \<^verbatim>\<open>X_real[n/2]\<close>.  For \<open>n = 2\<close>, \<open>s1 = [1, 0]\<close> and \<open>s2 = [0, 0]\<close> the call succeeds
  with \<open>X1_real = [1, 0]\<close>, while \<^verbatim>\<open>transform\<close> of \<open>s1\<close> alone gives the real part \<open>[1, 1]\<close>.
\<close>

theorem fft_2signals_middle_bin:
  "fft_2signals 0 (\<lambda>_. True) [1, 0] [0, 0]
       \<lparr>X1_real = [0, 0], X1_imag = [0, 0], X2_real = [0, 0], X2_imag = [0, 0]\<rparr> 2
     = Some (True, \<lparr>X1_real = [1, 0], X1_imag = [0, 0], X2_real = [0, 0], X2_imag = [0, 0]\<rparr>) \<and>
   transform 0 (\<lambda>_. True) [1, 0] [0, 0] 2 = Some (True, [1, 1], [0, 0])"
  by (simp add: fft_2signals_def transform_radix2_2 Let_def)

section \<open>The sequence \<open>b\<close> of the Bluestein adapter\<close>

lemma b_update:
  assumes "Suc (2 * k) \<le> m" and "1 \<le> k"
  shows "(map (b_partial tbl m k) [0..<m])[m - k := tbl ! k, k := tbl ! k]
       = map (b_partial tbl m (Suc k)) [0..<m]"
proof (rule nth_equalityI)
  show "length ((map (b_partial tbl m k) [0..<m])[m - k := tbl ! k, k := tbl ! k])
      = length (map (b_partial tbl m (Suc k)) [0..<m])"
    by simp
next
  fix j assume "j < length ((map (b_partial tbl m k) [0..<m])[m - k := tbl ! k, k := tbl ! k])"
  then have j: "j < m" by simp
  consider "j = k" | "j = m - k" | "j \<noteq> k" "j \<noteq> m - k" by blast
  then show "(map (b_partial tbl m k) [0..<m])[m - k := tbl ! k, k := tbl ! k] ! j
      = map (b_partial tbl m (Suc k)) [0..<m] ! j"
  proof cases
    case 1
    with assms j show ?thesis by (simp add: b_partial_def)
  next
    case 2
    with assms j show ?thesis by (auto simp: b_partial_def)
  next
    case 3
    with assms j show ?thesis by (auto simp: b_partial_def)
  qed
qed

lemma b_fold:
  assumes "1 \<le> k" and "2 * k \<le> m + 1" and "1 \<le> m"
  shows "fold (b_step ct st m) [1..<k] ((replicate m 0)[0 := ct ! 0], (replicate m 0)[0 := st ! 0])
       = (map (b_partial ct m k) [0..<m], map (b_partial st m k) [0..<m])"
  using assms(1,2)
proof (induction k rule: nat_induct_at_least)
  case base
  have "\<And>tbl :: real list. (replicate m 0)[0 := tbl ! 0] = map (b_partial tbl m 1) [0..<m]"
    using assms(3) by (auto simp: list_eq_iff_nth_eq b_partial_def nth_list_update)
  then show ?case by simp
next
  case (Suc k)
  then have "Suc (2 * k) \<le> m" "2 * k \<le> m + 1" by simp_all
  with Suc show ?case
    by (simp add: b_step_def b_update)
qed

lemma bluestein_b_spec:
  assumes "1 \<le> n" and "2 * n + 1 \<le> m"
  shows "bluestein_b ct st n m = (map (b_partial ct m n) [0..<m], map (b_partial st m n) [0..<m])"
  unfolding bluestein_b_def using assms by (intro b_fold) simp_all

lemma m_loop_result:
  assumes "\<not> (SIZE_MAX - 1) div 2 < n" and "m_loop 1 (n * 2 + 1) = Some (Some m)"
  shows "2 * unat n + 1 \<le> unat m \<and> (\<exists>i<64. m = 2 ^ i)"
proof -
  from m_loop_1 [of "n * 2 + 1"] assms(2)
  obtain i where i: "i < 64" "m = 2 ^ i" "n * 2 + 1 \<le> m" by auto
  from i(3) have "2 * unat n + 1 \<le> unat m"
    by (simp add: word_le_nat_alt unat_target [OF assms(1)])
  with i show ?thesis by blast
qed

text \<open>
  Claim C4, amended.  For \<open>n \<ge> 1\<close> and the working length \<open>m\<close> that the code selects,
  both arrays of \<open>b\<close> have length \<open>m\<close>, \<open>b[0] = chirp[0]\<close>, \<open>b[j] = b[m - j] = chirp[j]\<close>
  for \<open>1 \<le> j < n\<close>, and \<open>b[j] = 0\<close> for \<open>n \<le> j \<le> m - n\<close>.  The sequence is
  symmetric, \<open>b[m - j] = b[j]\<close>, in the real and in the imaginary part.
\<close>

theorem bluestein_b_symmetric:
  assumes "n \<noteq> 0" and "\<not> (SIZE_MAX - 1) div 2 < n" and "m_loop 1 (n * 2 + 1) = Some (Some m)"
    and "b = bluestein_b (chirp_cos_table (unat n)) (chirp_sin_table (unat n)) (unat n) (unat m)"
    and "j < unat m"
  shows "length (fst b) = unat m \<and> length (snd b) = unat m \<and>
         fst b ! 0 = chirp_cos_table (unat n) ! 0 \<and> snd b ! 0 = chirp_sin_table (unat n) ! 0 \<and>
         (1 \<le> j \<and> j < unat n \<longrightarrow>
            fst b ! j = chirp_cos_table (unat n) ! j \<and> fst b ! (unat m - j) = fst b ! j \<and>
            snd b ! j = chirp_sin_table (unat n) ! j \<and> snd b ! (unat m - j) = snd b ! j) \<and>
         (unat n \<le> j \<and> j \<le> unat m - unat n \<longrightarrow> fst b ! j = 0 \<and> snd b ! j = 0)"
proof -
  have n: "1 \<le> unat n" using assms(1) by (simp add: Suc_le_eq unat_gt_0)
  have m: "2 * unat n + 1 \<le> unat m"
    using m_loop_result [OF assms(2,3)] by blast
  have b: "b = (map (b_partial (chirp_cos_table (unat n)) (unat m) (unat n)) [0..<unat m],
                map (b_partial (chirp_sin_table (unat n)) (unat m) (unat n)) [0..<unat m])"
    unfolding assms(4) using n m by (rule bluestein_b_spec)
  have 0: "0 < unat m" using m by simp
  have "1 \<le> j \<and> j < unat n \<Longrightarrow> unat m - j < unat m \<and> \<not> unat m - j < unat n
      \<and> unat m - unat n < unat m - j \<and> unat m - (unat m - j) = j"
    using m by auto
  then show ?thesis
    using assms(5) n m 0 by (auto simp: b b_partial_def)
qed

lemma chirp_sin_3_1: "chirp_sin_table 3 ! Suc 0 = sqrt 3 / 2"
proof -
  have "[0..<3] = [0, 1, 2]" by (simp add: upt_rec)
  then show ?thesis
    by (simp add: chirp_sin_table_def chirp_index_def sin_60)
qed

theorem bluestein_b_symmetric_witness:
  "snd (bluestein_b (chirp_cos_table 3) (chirp_sin_table 3) 3 8) ! 7 = sqrt 3 / 2 \<and>
   snd (bluestein_b (chirp_cos_table 3) (chirp_sin_table 3) 3 8) ! 1 = sqrt 3 / 2 \<and>
   snd (bluestein_b (chirp_cos_table 3) (chirp_sin_table 3) 3 8) ! 4 = 0"
proof -
  have g: "(3 :: size_t) \<noteq> 0" "\<not> (SIZE_MAX - 1) div 2 < (3 :: size_t)"
    by (simp_all add: SIZE_MAX_def)
  have m: "m_loop 1 ((3 :: size_t) * 2 + 1) = Some (Some 8)"
    using m_loop_7 by simp
  have b: "bluestein_b (chirp_cos_table 3) (chirp_sin_table 3) 3 8
      = bluestein_b (chirp_cos_table (unat (3 :: size_t))) (chirp_sin_table (unat (3 :: size_t)))
          (unat (3 :: size_t)) (unat (8 :: size_t))"
    by simp
  have j1: "1 < unat (8 :: size_t)" and j4: "4 < unat (8 :: size_t)" by simp_all
  from bluestein_b_symmetric [OF g m b j1] bluestein_b_symmetric [OF g m b j4]
  show ?thesis
    by (simp add: chirp_sin_3_1)
qed

text \<open>
  Claim C4 as stated has \<open>b[m - i]\<close> the complex conjugate of \<open>b[i]\<close>.  For \<open>n = 3\<close>, where
  \<open>m = 8\<close>, the imaginary parts of \<open>b[7]\<close> and \<open>b[1]\<close> are both \<open>sin (\<pi> / 3)\<close>, which is not
  zero.
\<close>

theorem bluestein_b_not_hermitian:
  "m_loop 1 ((3 :: size_t) * 2 + 1) = Some (Some 8) \<and>
   snd (bluestein_b (chirp_cos_table 3) (chirp_sin_table 3) 3 8) ! (8 - 1)
     \<noteq> - (snd (bluestein_b (chirp_cos_table 3) (chirp_sin_table 3) 3 8) ! 1)"
proof -
  have m: "m_loop 1 ((3 :: size_t) * 2 + 1) = Some (Some 8)"
    using m_loop_7 by simp
  have b: "bluestein_b (chirp_cos_table 3) (chirp_sin_table 3) 3 8
      = (map (b_partial (chirp_cos_table 3) 8 3) [0..<8], map (b_partial (chirp_sin_table 3) 8 3) [0..<8])"
    by (rule bluestein_b_spec) simp_all
  have v: "snd (bluestein_b (chirp_cos_table 3) (chirp_sin_table 3) 3 8) ! 7 = sqrt 3 / 2"
    "snd (bluestein_b (chirp_cos_table 3) (chirp_sin_table 3) 3 8) ! 1 = sqrt 3 / 2"
    by (simp_all add: b b_partial_def chirp_sin_3_1)
  have e: "(8::nat) - 1 = 7" by simp
  have "0 < sqrt 3 / 2" by simp
  then have "sqrt 3 / 2 \<noteq> - (sqrt 3 / 2)" by linarith
  then have "snd (bluestein_b (chirp_cos_table 3) (chirp_sin_table 3) 3 8) ! (8 - 1)
     \<noteq> - (snd (bluestein_b (chirp_cos_table 3) (chirp_sin_table 3) 3 8) ! 1)"
    by (simp only: e v not_False_eq_True)
  with m show ?thesis by (rule conjI)
qed

section \<open>Roots of unity, the inversion formula and the convolution theorem\<close>

lemma twiddle_0 [simp]: "twiddle N 0 = 1"
  by (simp add: twiddle_def)

lemma twiddle_add: "twiddle N (a + b) = twiddle N a * twiddle N b"
  by (simp add: twiddle_def cis_mult add_divide_distrib ring_distribs)

lemma twiddle_minus: "twiddle N (- a) = cnj (twiddle N a)"
  by (simp add: twiddle_def cis_cnj)

lemma twiddle_diff: "twiddle N (a - b) = twiddle N a * cnj (twiddle N b)"
  using twiddle_add [of N a "- b"] by (simp add: twiddle_minus)

lemma twiddle_mult_cnj [simp]: "twiddle N a * cnj (twiddle N a) = 1"
  using twiddle_diff [of N a a] by simp

lemma twiddle_period:
  assumes "0 < N"
  shows "twiddle N (int N * q) = 1"
proof -
  have "2 * pi * of_int (int N * q) / of_nat N = 2 * pi * of_int q"
    using assms by simp
  then have "twiddle N (int N * q) = cis (- (2 * pi * of_int q))"
    by (simp only: twiddle_def)
  also have "\<dots> = cis (2 * pi * of_int (- q))"
    by simp
  also have "\<dots> = 1"
    by (rule cis_multiple_2pi) simp
  finally show ?thesis .
qed

lemma twiddle_mod:
  assumes "0 < N"
  shows "twiddle N (e mod int N) = twiddle N e"
proof -
  have "e = int N * (e div int N) + e mod int N" by simp
  then have "twiddle N e = twiddle N (int N * (e div int N)) * twiddle N (e mod int N)"
    by (metis twiddle_add)
  then show ?thesis by (simp add: twiddle_period [OF assms])
qed













section \<open>The butterfly loops\<close>







lemma brev_0 [simp]: "brev 0 0 = 0"
  by (simp add: brev_def reverse_bits_def reverse_bits_loop.simps)

section \<open>The radix-2 engine computes the transform\<close>













section \<open>The loops of the convolution engine and of the Bluestein adapter\<close>

















section \<open>Bluestein and the dispatcher compute the transform\<close>





section \<open>The success flag\<close>














section \<open>Convolution and round trip\<close>




















end
